theory Spec2Isabelle
  imports Main "HOL-Library.Multiset" "HOL-Library.Word"
begin

section \<open>JavaScript values used by the two katas\<close>

text \<open>
  A JavaScript read \<open>xs[k]\<close> of a string or an array never fails: outside
  \<open>0 \<le> k < xs.length\<close> it is \<open>undefined\<close>, which is \<open>None\<close> here.
\<close>

definition js_nth :: "'a list \<Rightarrow> int \<Rightarrow> 'a option" where
  "js_nth xs k = (if 0 \<le> k \<and> k < int (length xs) then Some (xs ! nat k) else None)"

section \<open>getPermutations (src/task/11-katas-2-tasks.js, lines 340-360)\<close>

text \<open>
  The input is a JavaScript string, a sequence of UTF-16 code units.  \<open>chars.length\<close>
  counts the units, while the spread \<open>[...chars]\<close> iterates over code points: a high
  surrogate followed by a low surrogate is one element of two units, and any other
  unit is an element of its own.
\<close>

type_synonym unit16 = "16 word"

type_synonym jsstring = "unit16 list"

definition high_surrogate :: "unit16 \<Rightarrow> bool" where
  "high_surrogate u = (0xD800 \<le> u \<and> u \<le> 0xDBFF)"

definition low_surrogate :: "unit16 \<Rightarrow> bool" where
  "low_surrogate u = (0xDC00 \<le> u \<and> u \<le> 0xDFFF)"

fun spread :: "jsstring \<Rightarrow> jsstring list" where
  "spread [] = []"
| "spread [u] = [[u]]"
| "spread (u # v # us) =
     (if high_surrogate u \<and> low_surrogate v then [u, v] # spread us
      else [u] # spread (v # us))"

text \<open>
  The working array \<open>arr\<close> is a JavaScript array of strings.  An entry is \<open>Some s\<close>,
  or \<open>None\<close> for \<open>undefined\<close> (a hole).  A write past the end extends the array with
  holes; \<open>join('')\<close> renders a hole as the empty string.
\<close>

type_synonym jsarr = "jsstring option list"

definition arr_get :: "jsarr \<Rightarrow> nat \<Rightarrow> jsstring option" where
  "arr_get arr m = (if m < length arr then arr ! m else None)"

definition arr_set :: "jsarr \<Rightarrow> nat \<Rightarrow> jsstring option \<Rightarrow> jsarr" where
  "arr_set arr m v =
     (if m < length arr then arr[m := v]
      else arr @ replicate (m - length arr) None @ [v])"

definition join :: "jsarr \<Rightarrow> jsstring" where
  "join arr = concat (map (\<lambda>x. case x of None \<Rightarrow> [] | Some s \<Rightarrow> s) arr)"

text \<open>
  \<open>for (let i = 0; i < bound; i++) body\<close> over a state, where the body may fail to
  return: the loop stops with \<open>None\<close> as soon as one iteration does.
\<close>

primrec for_each :: "'a list \<Rightarrow> ('a \<Rightarrow> 's \<Rightarrow> 's option) \<Rightarrow> 's \<Rightarrow> 's option" where
  "for_each [] body s = Some s"
| "for_each (i # is) body s =
     (case body i s of None \<Rightarrow> None | Some s' \<Rightarrow> for_each is body s')"

text \<open>
  Lines 349-351: \<open>tmp = arr[k - 1]; arr[k - 1] = arr[j]; arr[j] = tmp\<close>.
\<close>

definition swap :: "nat \<Rightarrow> nat \<Rightarrow> jsarr \<Rightarrow> jsarr" where
  "swap m j arr =
     (let tmp = arr_get arr m;
          arr1 = arr_set arr m (arr_get arr j)
      in arr_set arr1 j tmp)"

text \<open>
  The closure \<open>generate\<close> (lines 342-355).  Its state is the shared array \<open>arr\<close> and
  the captured list \<open>output\<close>.  The first argument bounds the depth of the recursion:
  \<open>None\<close> means that the call did not return within that depth.  \<open>k\<close> is an \<open>int\<close>
  because \<open>k - 1\<close> is computed before any test on \<open>k\<close> other than \<open>k === 1\<close>.
  Inside the loop \<open>0 \<le> i < k - 1\<close>, so both indices are natural numbers.
\<close>

fun generate ::
  "nat \<Rightarrow> int \<Rightarrow> jsarr \<times> jsstring list \<Rightarrow> (jsarr \<times> jsstring list) option" where
  "generate 0 k s = None"
| "generate (Suc fuel) k (arr, output) =
     (if k = 1 then Some (arr, output @ [join arr])
      else
        (case generate fuel (k - 1) (arr, output) of
           None \<Rightarrow> None
         | Some s1 \<Rightarrow>
             for_each [0 ..< nat (k - 1)]
               (\<lambda>i (arr, output).
                  let j = (if k mod 2 = 0 then i else 0)
                  in generate fuel (k - 1) (swap (nat (k - 1)) j arr, output))
               s1))"

text \<open>
  Lines 356-359: run \<open>generate(chars.length, [...chars])\<close>, then yield the collected
  strings in order.  \<open>k\<close> starts as the number of code units and the array holds the
  code points.  The result is the sequence of yielded values.
\<close>

definition getPermutations :: "nat \<Rightarrow> jsstring \<Rightarrow> jsstring list option" where
  "getPermutations fuel chars =
     map_option snd (generate fuel (int (length chars)) (map Some (spread chars), []))"

subsection \<open>Notions for the order in which the permutations are produced\<close>

text \<open>The transposition of the positions \<open>a\<close> and \<open>b\<close>.\<close>

definition tr :: "nat \<Rightarrow> nat \<Rightarrow> nat \<Rightarrow> nat" where
  "tr a b p = (if p = a then b else if p = b then a else p)"

text \<open>
  Where the elements end up: when \<open>generate(k, arr)\<close> returns, position \<open>p\<close> of the
  array holds the element that was at position \<open>heap_final k p\<close> on entry.  For odd
  \<open>k\<close> the first and the last of the \<open>k\<close> positions are exchanged; for even \<open>k\<close> the
  \<open>k\<close> positions are moved around one cycle.
\<close>

definition heap_final :: "nat \<Rightarrow> nat \<Rightarrow> nat" where
  "heap_final k p =
     (if odd k then tr 0 (k - 1) p
      else if p = k - 1 then 0
      else if p = k - 2 then k - 1
      else if p = 0 then k - 3
      else if p = 1 then k - 2
      else if p < k then p - 1
      else p)"

text \<open>
  The same for the array at the start of the call of \<open>generate(k - 1, arr)\<close> number
  \<open>i\<close> inside \<open>generate(k, arr)\<close>: each round of the loop of lines 347-353 comes
  after a call at \<open>k - 1\<close> and exchanges position \<open>k - 1\<close> with position \<open>i\<close> (even
  \<open>k\<close>) or \<open>0\<close> (odd \<open>k\<close>).
\<close>

fun iter :: "nat \<Rightarrow> nat \<Rightarrow> nat \<Rightarrow> nat" where
  "iter k 0 = id"
| "iter k (Suc i) = iter k i \<circ> (heap_final (k - 1) \<circ> tr (k - 1) (if even k then i else 0))"

text \<open>The closed form of \<open>iter k i\<close> for even \<open>k\<close>.\<close>

definition even_form :: "nat \<Rightarrow> nat \<Rightarrow> nat \<Rightarrow> nat" where
  "even_form k i p =
     (if i = 0 \<or> k \<le> p then p
      else if p = k - 1 then (if i = k - 1 then 0 else if i = 1 then k - 2 else i - 1)
      else if p = 0 then (if odd i then k - 1 else 0)
      else if p = k - 2 \<and> i < k - 1 then (if odd i then 0 else k - 1)
      else if p < i then (if p = 1 then k - 2 else p - 1)
      else p)"

text \<open>
  For odd \<open>k = m + 1\<close>: the position whose element is last at the start of call
  number \<open>i\<close>.
\<close>

definition odd_orbit :: "nat \<Rightarrow> nat \<Rightarrow> nat" where
  "odd_orbit m i =
     (if i = 0 then m
      else if i + 3 \<le> m then m - 2 - i
      else if i + 2 = m then m - 2
      else if i + 1 = m then m - 1
      else 0)"

text \<open>One round of the loop for odd \<open>k = m + 1\<close>, on positions.\<close>

definition turn :: "nat \<Rightarrow> nat \<Rightarrow> nat" where
  "turn m q = heap_final m (tr m 0 q)"

text \<open>The array that holds at \<open>p\<close> what \<open>xs\<close> holds at \<open>f p\<close>.\<close>

definition permute :: "(nat \<Rightarrow> nat) \<Rightarrow> 'a list \<Rightarrow> 'a list" where
  "permute f xs = map (\<lambda>p. xs ! f p) [0 ..< length xs]"

text \<open>
  \<open>x\<close> is \<open>arr\<close> with its first \<open>n\<close> entries rearranged and the others in place.
\<close>

definition rearr :: "nat \<Rightarrow> 'a list \<Rightarrow> 'a list \<Rightarrow> bool" where
  "rearr n arr x = (mset (take n x) = mset (take n arr) \<and> drop n x = drop n arr)"

section \<open>findStringInSnakingPuzzle (src/task/11-katas-2-tasks.js, lines 288-325)\<close>

text \<open>
  The puzzle is an array of strings and is only read; its code units are only compared
  for equality and are kept as values of type \<open>char\<close>.  The closure state is the pair of
  captured variables \<open>index\<close> and \<open>visited\<close>.  \<open>visited\<close> is built with one row per
  puzzle row (lines 290-291) and rows are never added, removed or replaced, so
  \<open>visited[i]\<close> is an array exactly when \<open>0 \<le> i < puzzle.length\<close>.  The cells are kept
  as a property map: \<open>visited st (i, j)\<close> is \<open>Some b\<close> when \<open>visited[i][j]\<close> holds the
  boolean \<open>b\<close> and \<open>None\<close> when it is \<open>undefined\<close>; a write \<open>visited[i][j] = b\<close> defines
  the property whatever \<open>j\<close> is, as a JavaScript array does.
\<close>

type_synonym cell = "int \<times> int"

type_synonym mask = "cell \<Rightarrow> bool option"

record state =
  index :: int
  visited :: mask

text \<open>
  What a call yields: the returned boolean and the closure state it leaves, or \<open>None\<close>
  when it does not return within the depth bound.  It is polymorphic in the state so that
  the same control structure serves the instrumented search below.
\<close>

type_synonym 's outcome = "(bool \<times> 's) option"

type_synonym result = "state outcome"

text \<open>\<open>visited[i]\<close> is truthy: row \<open>i\<close> exists (an array, even an empty one, is truthy).\<close>

definition row_exists :: "string list \<Rightarrow> int \<Rightarrow> bool" where
  "row_exists puzzle i = (0 \<le> i \<and> i < int (length puzzle))"

text \<open>\<open>!visited[i][j]\<close>: true for \<open>false\<close> and for \<open>undefined\<close>.\<close>

definition unvisited :: "state \<Rightarrow> int \<Rightarrow> int \<Rightarrow> bool" where
  "unvisited st i j = (visited st (i, j) \<noteq> Some True)"

text \<open>
  Line 294: \<open>puzzle[i] && puzzle[i][j] === searchStr[index]\<close>.  \<open>puzzle[i]\<close> is falsy
  when it is \<open>undefined\<close> or the empty string; \<open>===\<close> compares two values each of which
  is a character or \<open>undefined\<close>, and \<open>undefined === undefined\<close> is true.
\<close>

definition matches :: "string list \<Rightarrow> string \<Rightarrow> int \<Rightarrow> int \<Rightarrow> state \<Rightarrow> bool" where
  "matches puzzle searchStr i j st =
     (case js_nth puzzle i of
        None \<Rightarrow> False
      | Some row \<Rightarrow> row \<noteq> [] \<and> js_nth row j = js_nth searchStr (index st))"

text \<open>Lines 295-296 and lines 310-311.\<close>

definition mark :: "int \<Rightarrow> int \<Rightarrow> state \<Rightarrow> state" where
  "mark i j st = st\<lparr>index := index st + 1, visited := (visited st)((i, j) \<mapsto> True)\<rparr>"

definition unmark :: "int \<Rightarrow> int \<Rightarrow> state \<Rightarrow> state" where
  "unmark i j st = st\<lparr>index := index st - 1, visited := (visited st)((i, j) \<mapsto> False)\<rparr>"

text \<open>
  \<open>if (guard && call()) return true;\<close> followed by the rest of the body: the call is made
  only when the guard holds, a true result is returned at once with the state as it is,
  and otherwise the rest runs in the state the call left.  \<open>None\<close> (no return within the
  depth bound) propagates.
\<close>

definition guarded :: "bool \<Rightarrow> ('s \<Rightarrow> 's outcome) \<Rightarrow> 's \<Rightarrow> 's outcome" where
  "guarded g call st = (if g then call st else Some (False, st))"

definition or_else :: "'s outcome \<Rightarrow> ('s \<Rightarrow> 's outcome) \<Rightarrow> 's outcome" where
  "or_else r rest =
     (case r of
        None \<Rightarrow> None
      | Some (found, st) \<Rightarrow> if found then Some (True, st) else rest st)"

text \<open>
  The closure \<open>canFindStartedFrom\<close> (lines 293-314).  The first numeric argument bounds
  the depth of the recursion; \<open>None\<close> means no return within that depth.
\<close>

fun canFindStartedFrom ::
  "string list \<Rightarrow> string \<Rightarrow> nat \<Rightarrow> int \<Rightarrow> int \<Rightarrow> state \<Rightarrow> result" where
  "canFindStartedFrom puzzle searchStr 0 i j st = None"
| "canFindStartedFrom puzzle searchStr (Suc fuel) i j st =
     (if matches puzzle searchStr i j st then
        (let st1 = mark i j st in
         if index st1 = int (length searchStr) then Some (True, st1)
         else
           or_else (guarded (row_exists puzzle (i - 1) \<and> unvisited st1 (i - 1) j)
                      (canFindStartedFrom puzzle searchStr fuel (i - 1) j) st1) (\<lambda>st2.
           or_else (guarded (row_exists puzzle (i + 1) \<and> unvisited st2 (i + 1) j)
                      (canFindStartedFrom puzzle searchStr fuel (i + 1) j) st2) (\<lambda>st3.
           or_else (guarded (unvisited st3 i (j - 1))
                      (canFindStartedFrom puzzle searchStr fuel i (j - 1)) st3) (\<lambda>st4.
           or_else (guarded (unvisited st4 i (j + 1))
                      (canFindStartedFrom puzzle searchStr fuel i (j + 1)) st4) (\<lambda>st5.
           Some (False, unmark i j st5))))))
      else Some (False, st))"

text \<open>
  \<open>for (x of xs) { if (body(x)) return true; }\<close> followed by \<open>return false\<close>, over the
  state.
\<close>

primrec for_first :: "'a list \<Rightarrow> ('a \<Rightarrow> 's \<Rightarrow> 's outcome) \<Rightarrow> 's \<Rightarrow> 's outcome" where
  "for_first [] body st = Some (False, st)"
| "for_first (x # xs) body st = or_else (body x st) (for_first xs body)"

text \<open>Lines 289-291: \<open>index = 0\<close> and a mask of \<open>false\<close> of the shape of the puzzle.\<close>

definition init_state :: "string list \<Rightarrow> state" where
  "init_state puzzle =
     \<lparr>index = 0,
      visited = (\<lambda>(i, j). case js_nth puzzle i of
                             None \<Rightarrow> None
                           | Some row \<Rightarrow> if 0 \<le> j \<and> j < int (length row) then Some False else None)\<rparr>"

text \<open>
  Lines 316-324, with the final closure state kept, and the function itself, which
  returns the boolean only.
\<close>

definition search :: "nat \<Rightarrow> string list \<Rightarrow> string \<Rightarrow> result" where
  "search fuel puzzle searchStr =
     for_first [0 ..< length puzzle]
       (\<lambda>i. for_first [0 ..< length (puzzle ! i)]
          (\<lambda>j. canFindStartedFrom puzzle searchStr fuel (int i) (int j)))
       (init_state puzzle)"

definition findStringInSnakingPuzzle :: "nat \<Rightarrow> string list \<Rightarrow> string \<Rightarrow> bool option" where
  "findStringInSnakingPuzzle fuel puzzle searchStr = map_option fst (search fuel puzzle searchStr)"

subsection \<open>The same search with the four directions in another order\<close>

text \<open>
  A second embedding, for the comparison of exploration orders: it is
  \<open>canFindStartedFrom\<close> with the four guarded calls of lines 298-309 taken from a list of
  directions.  Each direction keeps the guard the source gives it: the vertical moves
  test that the row exists, the horizontal moves do not.
\<close>

datatype direction = Up | Down | Left | Right

fun neighbour :: "direction \<Rightarrow> cell \<Rightarrow> cell" where
  "neighbour Up (i, j) = (i - 1, j)"
| "neighbour Down (i, j) = (i + 1, j)"
| "neighbour Left (i, j) = (i, j - 1)"
| "neighbour Right (i, j) = (i, j + 1)"

fun may_enter :: "string list \<Rightarrow> direction \<Rightarrow> int \<Rightarrow> int \<Rightarrow> state \<Rightarrow> bool" where
  "may_enter puzzle Up i j st = (row_exists puzzle (i - 1) \<and> unvisited st (i - 1) j)"
| "may_enter puzzle Down i j st = (row_exists puzzle (i + 1) \<and> unvisited st (i + 1) j)"
| "may_enter puzzle Left i j st = unvisited st i (j - 1)"
| "may_enter puzzle Right i j st = unvisited st i (j + 1)"

fun canFindOrdered ::
  "direction list \<Rightarrow> string list \<Rightarrow> string \<Rightarrow> nat \<Rightarrow> int \<Rightarrow> int \<Rightarrow> state \<Rightarrow> result" where
  "canFindOrdered dirs puzzle searchStr 0 i j st = None"
| "canFindOrdered dirs puzzle searchStr (Suc fuel) i j st =
     (if matches puzzle searchStr i j st then
        (let st1 = mark i j st in
         if index st1 = int (length searchStr) then Some (True, st1)
         else
           or_else
             (for_first dirs
                (\<lambda>d st'. guarded (may_enter puzzle d i j st')
                   (canFindOrdered dirs puzzle searchStr fuel
                      (fst (neighbour d (i, j))) (snd (neighbour d (i, j)))) st')
                st1)
             (\<lambda>st5. Some (False, unmark i j st5)))
      else Some (False, st))"

definition searchOrdered :: "direction list \<Rightarrow> nat \<Rightarrow> string list \<Rightarrow> string \<Rightarrow> result" where
  "searchOrdered dirs fuel puzzle searchStr =
     for_first [0 ..< length puzzle]
       (\<lambda>i. for_first [0 ..< length (puzzle ! i)]
          (\<lambda>j. canFindOrdered dirs puzzle searchStr fuel (int i) (int j)))
       (init_state puzzle)"

definition findStringOrdered ::
  "direction list \<Rightarrow> nat \<Rightarrow> string list \<Rightarrow> string \<Rightarrow> bool option" where
  "findStringOrdered dirs fuel puzzle searchStr =
     map_option fst (searchOrdered dirs fuel puzzle searchStr)"

subsection \<open>The search with a log of the closure states it goes through\<close>

text \<open>
  The closure state changes at four assignments only: \<open>index++\<close> (line 295),
  \<open>visited[i][j] = true\<close> (line 296), \<open>index--\<close> (line 310) and \<open>visited[i][j] = false\<close>
  (line 311).  The instrumented search is \<open>canFindStartedFrom\<close> on a state paired with a
  log, to which each of the four assignments appends the state it produces, tagged with
  the assignment; the log starts with the initial state.  It holds every state the
  closure goes through.
\<close>

datatype point = Start | Index_raised | Marked | Index_lowered | Unmarked

type_synonym logged = "state \<times> (point \<times> state) list"

definition mark_logged :: "int \<Rightarrow> int \<Rightarrow> logged \<Rightarrow> logged" where
  "mark_logged i j t =
     (let st1 = (fst t)\<lparr>index := index (fst t) + 1\<rparr>;
          st2 = st1\<lparr>visited := (visited st1)((i, j) \<mapsto> True)\<rparr>
      in (st2, snd t @ [(Index_raised, st1), (Marked, st2)]))"

definition unmark_logged :: "int \<Rightarrow> int \<Rightarrow> logged \<Rightarrow> logged" where
  "unmark_logged i j t =
     (let st1 = (fst t)\<lparr>index := index (fst t) - 1\<rparr>;
          st2 = st1\<lparr>visited := (visited st1)((i, j) \<mapsto> False)\<rparr>
      in (st2, snd t @ [(Index_lowered, st1), (Unmarked, st2)]))"

fun canFindLogged ::
  "string list \<Rightarrow> string \<Rightarrow> nat \<Rightarrow> int \<Rightarrow> int \<Rightarrow> logged \<Rightarrow> logged outcome" where
  "canFindLogged puzzle searchStr 0 i j t = None"
| "canFindLogged puzzle searchStr (Suc fuel) i j t =
     (if matches puzzle searchStr i j (fst t) then
        (let t1 = mark_logged i j t in
         if index (fst t1) = int (length searchStr) then Some (True, t1)
         else
           or_else (guarded (row_exists puzzle (i - 1) \<and> unvisited (fst t1) (i - 1) j)
                      (canFindLogged puzzle searchStr fuel (i - 1) j) t1) (\<lambda>t2.
           or_else (guarded (row_exists puzzle (i + 1) \<and> unvisited (fst t2) (i + 1) j)
                      (canFindLogged puzzle searchStr fuel (i + 1) j) t2) (\<lambda>t3.
           or_else (guarded (unvisited (fst t3) i (j - 1))
                      (canFindLogged puzzle searchStr fuel i (j - 1)) t3) (\<lambda>t4.
           or_else (guarded (unvisited (fst t4) i (j + 1))
                      (canFindLogged puzzle searchStr fuel i (j + 1)) t4) (\<lambda>t5.
           Some (False, unmark_logged i j t5))))))
      else Some (False, t))"

definition searchLogged :: "nat \<Rightarrow> string list \<Rightarrow> string \<Rightarrow> logged outcome" where
  "searchLogged fuel puzzle searchStr =
     for_first [0 ..< length puzzle]
       (\<lambda>i. for_first [0 ..< length (puzzle ! i)]
          (\<lambda>j. canFindLogged puzzle searchStr fuel (int i) (int j)))
       (init_state puzzle, [(Start, init_state puzzle)])"

subsection \<open>Notions the properties are stated with\<close>

text \<open>The cells whose mark is \<open>true\<close>, and their number.\<close>

definition true_cells :: "state \<Rightarrow> cell set" where
  "true_cells st = {c. visited st c = Some True}"

text \<open>\<open>puzzle[i][j]\<close> as a value: the character of the cell, if the cell exists.\<close>

definition cell_char :: "string list \<Rightarrow> cell \<Rightarrow> char option" where
  "cell_char puzzle c =
     (case js_nth puzzle (fst c) of None \<Rightarrow> None | Some row \<Rightarrow> js_nth row (snd c))"

text \<open>
  The mask has the shape of the puzzle: every cell of the puzzle has a boolean, and no
  mark is \<open>true\<close> outside the puzzle.
\<close>

definition shaped :: "string list \<Rightarrow> state \<Rightarrow> bool" where
  "shaped puzzle st =
     (\<forall>c. (cell_char puzzle c \<noteq> None \<longrightarrow> visited st c \<noteq> None) \<and>
          (cell_char puzzle c = None \<longrightarrow> visited st c \<noteq> Some True))"

text \<open>
  A snake for the word \<open>w\<close> from the cell \<open>c\<close>: a walk that starts at \<open>c\<close>, reads \<open>w\<close>,
  moves to one of the four neighbours at each step, stays off the cells of \<open>avoid\<close> and
  never comes back to a cell it has used.  The empty word has no snake.
\<close>

fun snake_from :: "string list \<Rightarrow> cell set \<Rightarrow> cell \<Rightarrow> string \<Rightarrow> bool" where
  "snake_from puzzle avoid c [] = False"
| "snake_from puzzle avoid c (x # w) =
     (cell_char puzzle c = Some x \<and> c \<notin> avoid \<and>
      (w = [] \<or> (\<exists>d. snake_from puzzle (insert c avoid) (neighbour d c) w)))"

text \<open>
  A snake for \<open>s\<close> exists somewhere in the puzzle, on a mask with nothing marked.
\<close>

definition has_snake :: "string list \<Rightarrow> string \<Rightarrow> bool" where
  "has_snake puzzle s = (\<exists>c. snake_from puzzle {} c s)"

text \<open>
  The list of cells \<open>p\<close> is a path that reads the word \<open>w\<close>: one cell for each symbol,
  holding that symbol, no cell twice and none in \<open>avoid\<close>, each cell after the first a
  neighbour of the one before.
\<close>

definition snake_path :: "string list \<Rightarrow> cell set \<Rightarrow> cell list \<Rightarrow> string \<Rightarrow> bool" where
  "snake_path puzzle avoid p w =
     (length p = length w \<and> distinct p \<and> set p \<inter> avoid = {} \<and>
      (\<forall>k<length p. cell_char puzzle (p ! k) = Some (w ! k)) \<and>
      (\<forall>k. Suc k < length p \<longrightarrow> (\<exists>d. p ! Suc k = neighbour d (p ! k))))"

text \<open>The number of true cells of a state is its index.\<close>

definition count_ok :: "state \<Rightarrow> bool" where
  "count_ok st = (int (card (true_cells st)) = index st)"

text \<open>
  The number of true cells a logged state has to have: the index, but one less between
  the two assignments of a marking and one more between the two of an unmarking.
\<close>

fun expected_count :: "point \<Rightarrow> state \<Rightarrow> int" where
  "expected_count Index_raised st = index st - 1"
| "expected_count Index_lowered st = index st + 1"
| "expected_count Start st = index st"
| "expected_count Marked st = index st"
| "expected_count Unmarked st = index st"

definition entry_ok :: "point \<times> state \<Rightarrow> bool" where
  "entry_ok e = (int (card (true_cells (snd e))) = expected_count (fst e) (snd e))"

text \<open>
  A state with its log: every logged state has the number of true cells expected at its
  point, the log starts with the state \<open>h\<close> and ends with the current state, in which
  the number of true cells is the index.
\<close>

definition log_ok :: "state \<Rightarrow> logged \<Rightarrow> bool" where
  "log_ok h t =
     ((\<forall>e\<in>set (snd t). entry_ok e) \<and> snd t \<noteq> [] \<and> hd (snd t) = (Start, h) \<and>
      snd (last (snd t)) = fst t \<and> count_ok (fst t))"

text \<open>Forgetting the log of an outcome of the instrumented search.\<close>

definition forget :: "logged outcome \<Rightarrow> result" where
  "forget r = map_option (\<lambda>(b, t). (b, fst t)) r"

text \<open>The output of \<open>generate\<close> only grows.\<close>

definition extends :: "jsstring list \<Rightarrow> jsarr \<times> jsstring list \<Rightarrow> bool" where
  "extends out s = (\<exists>ys. snd s = out @ ys)"

section \<open>Properties of getPermutations\<close>

text \<open>With \<open>k \<le> 0\<close> the test \<open>k === 1\<close> fails at every level, so no depth is enough.\<close>

lemma generate_nonpositive: "k \<le> 0 \<Longrightarrow> generate fuel k s = None"
proof (induction fuel arbitrary: k s)
  case 0
  show ?case by simp
next
  case (Suc fuel)
  obtain arr out where s: "s = (arr, out)" by (cases s)
  from Suc.prems have "generate fuel (k - 1) (arr, out) = None"
    by (intro Suc.IH) simp
  with Suc.prems show ?case by (simp add: s)
qed

lemma for_each_extends:
  assumes "\<And>i s. i \<in> set is \<Longrightarrow> \<exists>s'. body i s = Some s' \<and> extends (snd s) s'"
  shows "\<exists>s'. for_each is body s = Some s' \<and> extends (snd s) s'"
  using assms
proof (induction "is" arbitrary: s)
  case Nil
  show ?case by (simp add: extends_def)
next
  case (Cons i "is")
  from Cons.prems obtain s1 where s1: "body i s = Some s1" "extends (snd s) s1"
    by (meson list.set_intros(1))
  from Cons.IH [of s1] Cons.prems
  obtain s2 where s2: "for_each is body s1 = Some s2" "extends (snd s1) s2"
    by (meson list.set_intros(2))
  from s1(2) s2(2) have "extends (snd s) s2"
    by (auto simp: extends_def)
  with s1 s2 show ?case by simp
qed

text \<open>
  With \<open>1 \<le> k\<close> and depth at least \<open>k\<close> the call returns; it only appends to the
  output, and the first string it appends is the array as it was on entry.
\<close>

lemma generate_returns:
  "1 \<le> k \<Longrightarrow> k \<le> int fuel \<Longrightarrow>
   \<exists>arr' ys. generate fuel k (arr, out) = Some (arr', out @ join arr # ys)"
proof (induction fuel arbitrary: k arr out)
  case 0
  then show ?case by simp
next
  case (Suc fuel)
  show ?case
  proof (cases "k = 1")
    case True
    then show ?thesis by simp
  next
    case False
    with Suc.prems have k: "1 \<le> k - 1" "k - 1 \<le> int fuel" by simp_all
    from Suc.IH [OF k] obtain arr1 ys1
      where first: "generate fuel (k - 1) (arr, out) = Some (arr1, out @ join arr # ys1)"
      by blast
    let ?body = "\<lambda>i (arr, output).
                  let j = (if k mod 2 = 0 then i else 0)
                  in generate fuel (k - 1) (swap (nat (k - 1)) j arr, output)"
    have "\<exists>s'. ?body i s = Some s' \<and> extends (snd s) s'" for i s
    proof -
      obtain a out' where s: "s = (a, out')" by (cases s)
      from Suc.IH [OF k, of "swap (nat (k - 1)) (if k mod 2 = 0 then i else 0) a" out']
      show ?thesis by (auto simp: s extends_def Let_def)
    qed
    then have "\<exists>s'. for_each [0 ..< nat (k - 1)] ?body (arr1, out @ join arr # ys1) = Some s'
                  \<and> extends (snd (arr1, out @ join arr # ys1)) s'"
      by (intro for_each_extends) blast
    then obtain arr2 ys2
      where "for_each [0 ..< nat (k - 1)] ?body (arr1, out @ join arr # ys1)
               = Some (arr2, (out @ join arr # ys1) @ ys2)"
      by (auto simp: extends_def)
    with first False show ?thesis by simp
  qed
qed

lemma join_spread: "join (map Some (spread chars)) = chars"
  by (induction chars rule: spread.induct) (simp_all add: join_def)

lemma length_spread: "length (spread chars) \<le> length chars"
  by (induction chars rule: spread.induct) auto

text \<open>A string with as many code points as code units is spread unit by unit.\<close>

lemma spread_units: "length (spread chars) = length chars \<Longrightarrow> spread chars = map (\<lambda>u. [u]) chars"
proof (induction chars rule: spread.induct)
  case (3 u v us)
  show ?case
  proof (cases "high_surrogate u \<and> low_surrogate v")
    case True
    with "3.prems" length_spread [of us] show ?thesis by simp
  next
    case False
    with 3 show ?thesis by simp
  qed
qed simp_all

lemma getPermutations_returns:
  "chars \<noteq> [] \<Longrightarrow> length chars \<le> fuel \<Longrightarrow> \<exists>out. getPermutations fuel chars = Some out"
proof -
  assume "chars \<noteq> []" "length chars \<le> fuel"
  then have "1 \<le> int (length chars)" "int (length chars) \<le> int fuel"
    by (simp_all add: Suc_le_eq)
  from generate_returns [OF this, of "map Some (spread chars)" "[]"]
  show ?thesis by (auto simp: getPermutations_def)
qed

subsection \<open>The permutations of a non-empty input\<close>

text \<open>
  The loop of \<open>generate(k, arr)\<close> on positions, for even \<open>k\<close>: the iterates have the
  closed form \<open>even_form\<close>, the elements that are last at the start of the \<open>k\<close> calls at
  \<open>k - 1\<close> come from \<open>k\<close> different positions, and the array is left as \<open>heap_final k\<close>
  says.
\<close>

lemma heap_final_odd: "odd k \<Longrightarrow> heap_final k = tr 0 (k - 1)"
  by (rule ext) (simp add: heap_final_def)

lemma heap_final_pred:
  assumes "even k" "2 \<le> k"
  shows "heap_final (k - 1) = tr 0 (k - 2)" "heap_final (k - Suc 0) = tr 0 (k - 2)"
proof -
  from assms have "odd (k - 1)" by auto
  then have "heap_final (k - 1) = tr 0 (k - 1 - 1)"
    by (rule heap_final_odd)
  moreover have "k - 1 - 1 = k - 2" by simp
  ultimately show "heap_final (k - 1) = tr 0 (k - 2)" by simp
  then show "heap_final (k - Suc 0) = tr 0 (k - 2)" by simp
qed

lemma tr_involution: "tr a b (tr a b p) = p"
  by (simp add: tr_def)

lemma even_form_step:
  assumes "even k" "2 \<le> k" "i < k - 1"
  shows "even_form k (Suc i) p = even_form k i (tr 0 (k - 2) (tr (k - 1) i p))"
proof -
  from assms have k: "odd (k - 1)" "k - 2 < k - 1" by auto
  consider "p \<ge> k" | "p = k - 1" | "p = k - 2" "p \<noteq> 0" | "p = 0" | "0 < p" "p < k - 2" 
    using assms by linarith
  then show ?thesis
  proof cases
    case 1
    with assms show ?thesis by (auto simp: even_form_def tr_def)
  next
    case 2
    with assms show ?thesis by (auto simp: even_form_def tr_def)
  next
    case 3
    with assms show ?thesis by (auto simp: even_form_def tr_def)
  next
    case 4
    with assms show ?thesis by (auto simp: even_form_def tr_def)
  next
    case 5
    with assms show ?thesis by (auto simp: even_form_def tr_def)
  qed
qed

lemma iter_even:
  assumes "even k" "2 \<le> k"
  shows "i \<le> k - 1 \<Longrightarrow> iter k i p = even_form k i p"
proof (induction i arbitrary: p)
  case 0
  show ?case by (simp add: even_form_def)
next
  case (Suc i)
  note hf = heap_final_pred [OF assms]
  from Suc.prems have i: "i < k - 1" "i \<le> k - 1" by simp_all
  have "iter k (Suc i) p = iter k i (tr 0 (k - 2) (tr (k - 1) i p))"
    using assms(1) by (simp add: hf)
  also have "\<dots> = even_form k i (tr 0 (k - 2) (tr (k - 1) i p))"
    by (rule Suc.IH) (rule i)
  also have "\<dots> = even_form k (Suc i) p"
    using even_form_step [OF assms i(1)] by simp
  finally show ?case .
qed

lemma iter_even_last:
  assumes "even k" "2 \<le> k" "i < k"
  shows "iter k i (k - 1) =
           (if i = 0 then k - 1 else if i = k - 1 then 0 else if i = 1 then k - 2 else i - 1)"
proof -
  from assms(3) have "i \<le> k - 1" by simp
  from iter_even [OF assms(1,2) this, of "k - 1"] assms show ?thesis
    by (auto simp: even_form_def)
qed

lemma iter_even_distinct:
  assumes "even k" "2 \<le> k" "i < i'" "i' < k"
  shows "iter k i (k - 1) \<noteq> iter k i' (k - 1)"
proof -
  from assms have "i < k" by simp
  from iter_even_last [OF assms(1,2) this] iter_even_last [OF assms(1,2,4)] assms
  show ?thesis by (auto split: if_splits)
qed

lemma iter_even_final:
  assumes "even k" "2 \<le> k"
  shows "iter k (k - 1) (heap_final (k - 1) p) = heap_final k p"
proof -
  note hf = heap_final_pred [OF assms]
  have "iter k (k - 1) (tr 0 (k - 2) p) = even_form k (k - 1) (tr 0 (k - 2) p)"
    by (rule iter_even [OF assms]) simp
  also have "\<dots> = heap_final k p"
    using assms by (auto simp: even_form_def heap_final_def tr_def)
  finally show ?thesis by (simp add: hf)
qed

text \<open>
  The same for odd \<open>k\<close>: a round of the loop is \<open>turn (k - 1)\<close>, the last position
  runs through all \<open>k\<close> positions in \<open>k\<close> rounds and is back after them, so that \<open>k\<close>
  rounds are the identity.
\<close>

lemma iter_odd: "odd k \<Longrightarrow> iter k i = turn (k - 1) ^^ i"
proof (induction i)
  case 0
  show ?case by (simp add: id_def)
next
  case (Suc i)
  from Suc.prems
  have t: "heap_final (k - 1) \<circ> tr (k - 1) (if even k then i else 0) = turn (k - 1)"
    by (auto simp: turn_def fun_eq_iff)
  have "iter k (Suc i) = iter k i \<circ> turn (k - 1)" by (simp only: iter.simps t)
  also have "\<dots> = turn (k - 1) ^^ i \<circ> turn (k - 1)" by (simp only: Suc.IH [OF Suc.prems])
  also have "\<dots> = turn (k - 1) ^^ Suc i" by (simp only: funpow_Suc_right)
  finally show ?case .
qed

lemma funpow_fix: "f x = x \<Longrightarrow> (f ^^ n) x = x"
  by (induction n) simp_all

lemma turn_orbit:
  assumes "even m" "2 \<le> m" "i < m"
  shows "turn m (odd_orbit m i) = odd_orbit m (Suc i)"
proof -
  from assms(1) have "m \<noteq> 3" by auto
  with assms(2,3)
  have "(i = 0 \<and> m = 2) \<or> (i = 0 \<and> (\<exists>d. m = 4 + d)) \<or> (0 < i \<and> (\<exists>d. m = i + 4 + d))
      \<or> (0 < i \<and> m = i + 3) \<or> (0 < i \<and> m = i + 2) \<or> (0 < i \<and> m = i + 1)"
    by presburger
  then consider "i = 0" "m = 2" | d where "i = 0" "m = 4 + d" | d where "0 < i" "m = i + 4 + d"
    | "0 < i" "m = i + 3" | "0 < i" "m = i + 2" | "0 < i" "m = i + 1"
    by blast
  then show ?thesis
  proof cases
    case 1
    then show ?thesis by (simp add: turn_def odd_orbit_def heap_final_def tr_def)
  next
    case 2
    with assms(1) have "\<not> odd (4 + d)" by simp
    with 2 show ?thesis by (simp add: turn_def odd_orbit_def heap_final_def tr_def)
  next
    case 3
    with assms(1) have "\<not> odd (i + 4 + d)" by simp
    with 3 show ?thesis by (simp add: turn_def odd_orbit_def heap_final_def tr_def)
  next
    case 4
    with assms(1) have "\<not> odd (i + 3)" by simp
    with 4 show ?thesis by (simp add: turn_def odd_orbit_def heap_final_def tr_def)
  next
    case 5
    with assms(1) have "\<not> odd (i + 2)" by simp
    with 5 show ?thesis by (simp add: turn_def odd_orbit_def heap_final_def tr_def)
  next
    case 6
    with assms(1) have "\<not> odd (i + 1)" by simp
    with 6 show ?thesis by (simp add: turn_def odd_orbit_def heap_final_def tr_def)
  qed
qed

lemma turn_zero: "even m \<Longrightarrow> 2 \<le> m \<Longrightarrow> turn m 0 = m"
  by (auto simp: turn_def heap_final_def tr_def)

lemma turn_above: "even m \<Longrightarrow> 2 \<le> m \<Longrightarrow> m < q \<Longrightarrow> turn m q = q"
  by (auto simp: turn_def heap_final_def tr_def)

lemma funpow_orbit:
  assumes "even m" "2 \<le> m"
  shows "i \<le> m \<Longrightarrow> (turn m ^^ i) m = odd_orbit m i"
proof (induction i)
  case 0
  show ?case by (simp add: odd_orbit_def)
next
  case (Suc i)
  then have "i < m" "i \<le> m" by simp_all
  with Suc.IH turn_orbit [OF assms this(1)] show ?case by simp
qed

lemma odd_orbit_inj:
  assumes "even m" "2 \<le> m" "i < i'" "i' \<le> m"
  shows "odd_orbit m i \<noteq> odd_orbit m i'"
  using assms by (auto simp: odd_orbit_def split: if_splits)

lemma odd_orbit_surj:
  assumes "even m" "2 \<le> m" "q \<le> m"
  shows "\<exists>a\<le>m. odd_orbit m a = q"
proof -
  consider "q = m" | "q = 0" | "q = m - 1" | "q = m - 2" "2 < m" | "0 < q" "q + 3 \<le> m"
    using assms(2,3) by arith
  then show ?thesis
  proof cases
    case 1
    then have "odd_orbit m 0 = q" by (simp add: odd_orbit_def)
    then show ?thesis by blast
  next
    case 2
    with assms have "odd_orbit m m = q" by (auto simp: odd_orbit_def)
    then show ?thesis by blast
  next
    case 3
    with assms have "odd_orbit m (m - 1) = q" "m - 1 \<le> m" by (auto simp: odd_orbit_def)
    then show ?thesis by blast
  next
    case 4
    with assms have "odd_orbit m (m - 2) = q" "m - 2 \<le> m" by (auto simp: odd_orbit_def)
    then show ?thesis by blast
  next
    case 5
    with assms have "odd_orbit m (m - 2 - q) = q" "m - 2 - q \<le> m" by (auto simp: odd_orbit_def)
    then show ?thesis by blast
  qed
qed

lemma turn_period:
  assumes "even m" "2 \<le> m"
  shows "(turn m ^^ Suc m) q = q"
proof (cases "q \<le> m")
  case False
  then have "turn m q = q" using assms by (simp add: turn_above)
  then show ?thesis by (rule funpow_fix)
next
  case True
  from odd_orbit_surj [OF assms this] obtain a where a: "a \<le> m" "odd_orbit m a = q" by blast
  then have q: "q = (turn m ^^ a) m" by (simp add: funpow_orbit [OF assms])
  have "(turn m ^^ Suc m) m = turn m ((turn m ^^ m) m)" by simp
  also have "\<dots> = turn m 0" by (simp add: funpow_orbit [OF assms] odd_orbit_def)
  also have "\<dots> = m" using assms by (rule turn_zero)
  finally have home: "(turn m ^^ Suc m) m = m" .
  have "(turn m ^^ Suc m) q = (turn m ^^ (Suc m + a)) m"
    unfolding q by (simp only: funpow_add o_apply)
  also have "\<dots> = (turn m ^^ (a + Suc m)) m" by (simp only: add.commute)
  also have "\<dots> = (turn m ^^ a) ((turn m ^^ Suc m) m)" by (simp only: funpow_add o_apply)
  also have "\<dots> = q" by (simp only: home q)
  finally show ?thesis .
qed

lemma iter_odd_distinct:
  assumes "odd k" "3 \<le> k" "i < i'" "i' < k"
  shows "iter k i (k - 1) \<noteq> iter k i' (k - 1)"
proof -
  from assms have m: "even (k - 1)" "2 \<le> k - 1" "i \<le> k - 1" "i' \<le> k - 1" by auto
  from funpow_orbit [OF m(1,2,3)] funpow_orbit [OF m(1,2,4)] odd_orbit_inj [OF m(1,2) assms(3) m(4)]
  show ?thesis by (simp add: iter_odd [OF assms(1)])
qed

lemma iter_odd_final:
  assumes "odd k" "3 \<le> k"
  shows "iter k (k - 1) (heap_final (k - 1) p) = heap_final k p"
proof -
  from assms have m: "even (k - 1)" "2 \<le> k - 1" by auto
  have "heap_final (k - 1) p = turn (k - 1) (tr (k - 1) 0 p)"
    by (simp add: turn_def tr_involution)
  then have "iter k (k - 1) (heap_final (k - 1) p) = (turn (k - 1) ^^ Suc (k - 1)) (tr (k - 1) 0 p)"
    by (simp add: iter_odd [OF assms(1)] funpow_swap1)
  also have "\<dots> = tr (k - 1) 0 p" using m by (rule turn_period)
  also have "\<dots> = heap_final k p" using assms(1) by (simp add: heap_final_def tr_def)
  finally show ?thesis .
qed

text \<open>Both parities together, and the bounds of the position maps.\<close>

lemma iter_distinct:
  assumes "2 \<le> k" "i < i'" "i' < k"
  shows "iter k i (k - 1) \<noteq> iter k i' (k - 1)"
proof (cases "even k")
  case True
  then show ?thesis using assms by (rule iter_even_distinct)
next
  case False
  with assms(1) have "3 \<le> k" by (cases "k = 2") auto
  with False show ?thesis using assms(2,3) by (intro iter_odd_distinct) simp_all
qed

lemma iter_final:
  assumes "2 \<le> k"
  shows "iter k (k - 1) (heap_final (k - 1) p) = heap_final k p"
proof (cases "even k")
  case True
  then show ?thesis using assms by (rule iter_even_final)
next
  case False
  with assms(1) have "3 \<le> k" by (cases "k = 2") auto
  with False show ?thesis by (intro iter_odd_final) simp_all
qed

lemma tr_bound: "a < n \<Longrightarrow> b < n \<Longrightarrow> p < n \<Longrightarrow> tr a b p < n"
  by (simp add: tr_def)

lemma heap_final_bound: "1 \<le> k \<Longrightarrow> k \<le> n \<Longrightarrow> p < n \<Longrightarrow> heap_final k p < n"
  by (auto simp: heap_final_def tr_def)

lemma iter_below: "2 \<le> k \<Longrightarrow> i < k \<Longrightarrow> p < k \<Longrightarrow> iter k i p < k"
proof (induction i arbitrary: p)
  case 0
  then show ?case by simp
next
  case (Suc i)
  let ?j = "if even k then i else 0"
  from Suc.prems have "?j < k" "k - 1 < k" by simp_all
  with Suc.prems have "tr (k - 1) ?j p < k" by (intro tr_bound)
  moreover from Suc.prems have "1 \<le> k - 1" "k - 1 \<le> k" by simp_all
  ultimately have "heap_final (k - 1) (tr (k - 1) ?j p) < k" by (intro heap_final_bound)
  moreover from Suc.prems have "i < k" by simp
  ultimately show ?case using Suc.IH [OF Suc.prems(1)] by simp
qed

text \<open>Rearranged arrays; the exchange of lines 349-351 is one when both indices exist.\<close>

lemma length_permute: "length (permute f xs) = length xs"
  by (simp add: permute_def)

lemma nth_permute: "p < length xs \<Longrightarrow> permute f xs ! p = xs ! f p"
  by (simp add: permute_def)

lemma permute_id: "permute id xs = xs"
  by (simp add: permute_def map_nth)

lemma permute_cong: "(\<And>p. p < length xs \<Longrightarrow> f p = g p) \<Longrightarrow> permute f xs = permute g xs"
  by (simp add: permute_def)

lemma permute_comp:
  assumes "\<And>p. p < length xs \<Longrightarrow> f p < length xs"
  shows "permute f (permute g xs) = permute (g \<circ> f) xs"
  using assms by (intro nth_equalityI) (simp_all add: length_permute nth_permute)

lemma swap_permute:
  assumes "m < length arr" "j < length arr"
  shows "swap m j arr = permute (tr m j) arr"
proof (rule nth_equalityI)
  show "length (swap m j arr) = length (permute (tr m j) arr)"
    using assms by (simp add: swap_def arr_set_def arr_get_def length_permute Let_def)
next
  fix p assume "p < length (swap m j arr)"
  with assms have p: "p < length arr"
    by (simp add: swap_def arr_set_def arr_get_def Let_def)
  with assms show "swap m j arr ! p = permute (tr m j) arr ! p"
    by (auto simp: swap_def arr_set_def arr_get_def Let_def nth_permute tr_def nth_list_update)
qed

lemma rearr_refl: "rearr n arr arr"
  by (simp add: rearr_def)

lemma rearr_trans: "rearr n a b \<Longrightarrow> rearr n b c \<Longrightarrow> rearr n a c"
  by (simp add: rearr_def)

lemma rearr_mono:
  assumes "rearr m arr x" "m \<le> n"
  shows "rearr n arr x"
proof -
  from assms(2) obtain d where n: "n = m + d" by (auto simp: le_iff_add)
  from assms(1) have t: "mset (take m x) = mset (take m arr)" and d: "drop m x = drop m arr"
    by (simp_all add: rearr_def)
  have "take n x = take m x @ take d (drop m x)" "take n arr = take m arr @ take d (drop m arr)"
    unfolding n by (rule take_add)+
  then have "mset (take n x) = mset (take n arr)" by (simp add: t d)
  moreover have "drop n x = drop d (drop m x)" "drop n arr = drop d (drop m arr)"
    unfolding n by (simp_all add: add.commute)
  then have "drop n x = drop n arr" by (simp add: d)
  ultimately show ?thesis by (simp add: rearr_def)
qed

lemma rearr_length: "rearr n arr x \<Longrightarrow> length x = length arr"
proof -
  assume "rearr n arr x"
  then have "length (take n x) = length (take n arr)" "length (drop n x) = length (drop n arr)"
    unfolding rearr_def by (metis size_mset, simp)
  then show ?thesis by (metis append_take_drop_id length_append)
qed

lemma rearr_nth:
  assumes "rearr m arr x" "m \<le> p" "p < length arr"
  shows "x ! p = arr ! p"
proof -
  from assms(1) have d: "drop m x = drop m arr" by (simp add: rearr_def)
  from assms(1) have l: "length x = length arr" by (rule rearr_length)
  from assms(2) obtain e where p: "p = m + e" by (auto simp: le_iff_add)
  with assms(3) l have "x ! p = drop m x ! e" "arr ! p = drop m arr ! e" by simp_all
  with d show ?thesis by simp
qed

lemma rearr_distinct:
  "rearr n arr x \<Longrightarrow> distinct (take n arr) \<Longrightarrow> distinct (take n x)"
  unfolding rearr_def by (metis mset_eq_imp_distinct_iff)

lemma rearr_swap:
  assumes "m < n" "j < n" "n \<le> length arr"
  shows "rearr n arr (swap m j arr)"
proof -
  from assms have sw: "swap m j arr = arr[m := arr ! j, j := arr ! m]"
    by (simp add: swap_def arr_set_def arr_get_def Let_def)
  from assms have "take n (arr[m := arr ! j, j := arr ! m])
                   = (take n arr)[m := take n arr ! j, j := take n arr ! m]"
    by (simp add: take_update_swap)
  moreover from assms have "mset ((take n arr)[m := take n arr ! j, j := take n arr ! m])
                            = mset (take n arr)"
    by (intro mset_swap) simp_all
  moreover from assms have "drop n (arr[m := arr ! j, j := arr ! m]) = drop n arr"
    by simp
  ultimately show ?thesis by (simp add: rearr_def sw)
qed

lemma for_each_append:
  "for_each (xs @ ys) body s =
     (case for_each xs body s of None \<Rightarrow> None | Some s' \<Rightarrow> for_each ys body s')"
  by (induction xs arbitrary: s) (auto split: option.splits)

lemma heap_final_one: "permute (heap_final (Suc 0)) arr = arr"
proof -
  have "permute (heap_final (Suc 0)) arr = permute id arr"
    by (rule permute_cong) (simp add: heap_final_def tr_def)
  then show ?thesis by (simp add: permute_id)
qed

text \<open>
  What \<open>generate(n, arr)\<close> does for \<open>1 \<le> n \<le> arr.length\<close>, given depth \<open>n\<close>: it returns,
  leaves the array as \<open>heap_final n\<close> says, and appends \<open>n!\<close> strings to the output, the
  joins of rearrangements of the first \<open>n\<close> entries of the array, pairwise different
  when these entries are.
\<close>

lemma for_each_single: "for_each [i] body s = body i s"
  by (cases "body i s") simp_all

lemma generate_heap:
  "1 \<le> n \<Longrightarrow> n \<le> length arr \<Longrightarrow> n \<le> fuel \<Longrightarrow>
   \<exists>snaps. generate fuel (int n) (arr, out) =
              Some (permute (heap_final n) arr, out @ map join snaps) \<and>
     length snaps = fact n \<and> rearr n arr (permute (heap_final n) arr) \<and>
     (\<forall>x\<in>set snaps. rearr n arr x) \<and> (distinct (take n arr) \<longrightarrow> distinct snaps)"
proof (induction n arbitrary: arr out fuel)
  case 0
  then show ?case by simp
next
  case (Suc m)
  note outer = Suc.IH
  from Suc.prems(3) obtain f where fuel: "fuel = Suc f" and f: "m \<le> f"
    by (cases fuel) auto
  show ?case
  proof (cases "m = 0")
    case True
    have "generate fuel (int (Suc m)) (arr, out) = Some (arr, out @ map join [arr])"
      by (simp add: fuel True)
    then show ?thesis
      by (intro exI [of _ "[arr]"]) (simp add: True heap_final_one rearr_refl)
  next
    case False
    then have m: "1 \<le> m" by simp
    let ?n = "Suc m"
    let ?L = "length arr"
    from Suc.prems(2) have mL: "m < ?L" "m \<le> ?L" by simp_all
    define A where "A i = permute (iter ?n i) arr" for i
    define \<phi> where "\<phi> = heap_final m"
    let ?pick = "\<lambda>i. if even ?n then i else (0::nat)"
    let ?body = "\<lambda>i (arr, output).
                  let j = (if int ?n mod 2 = 0 then i else 0)
                  in generate f (int ?n - 1) (swap (nat (int ?n - 1)) j arr, output)"
    have body: "?body i (a, out') = generate f (int m) (swap m (?pick i) a, out')" for i a out'
    proof -
      have "(int ?n mod 2 = 0) = even ?n" by presburger
      moreover have "int ?n - 1 = int m" by simp
      ultimately show ?thesis by (simp only: Let_def prod.case nat_int)
    qed
    have lenA: "length (A i) = ?L" for i by (simp add: A_def length_permute)
    have A0: "A 0 = arr" by (simp add: A_def permute_id)
    have \<phi>_bound: "\<phi> p < ?L" if "p < ?L" for p
      unfolding \<phi>_def using m mL(2) that by (rule heap_final_bound)
    have A_Suc: "swap m (?pick i) (permute \<phi> (A i)) = A (Suc i)" if "i < m" for i
    proof -
      from that mL have j: "?pick i < ?L" by auto
      have "swap m (?pick i) (permute \<phi> (A i)) = permute (tr m (?pick i)) (permute \<phi> (A i))"
        using mL(1) j by (intro swap_permute) (simp_all add: length_permute lenA)
      also have "\<dots> = permute (\<phi> \<circ> tr m (?pick i)) (A i)"
        using mL(1) j by (intro permute_comp) (simp add: lenA tr_bound)
      also have "\<dots> = permute (iter ?n i \<circ> (\<phi> \<circ> tr m (?pick i))) arr"
        unfolding A_def using mL(1) j by (intro permute_comp) (simp add: \<phi>_bound tr_bound)
      also have "\<dots> = A (Suc i)" by (simp add: A_def \<phi>_def)
      finally show ?thesis .
    qed
    have last_A: "A i ! m = arr ! iter ?n i m" for i
      using mL(1) by (simp add: A_def nth_permute)
    from Suc.IH [OF m mL(2) f, of out] obtain T0 where T0:
      "generate f (int m) (arr, out) = Some (permute \<phi> arr, out @ map join T0)"
      "length T0 = fact m" "rearr m arr (permute \<phi> arr)" "\<forall>x\<in>set T0. rearr m arr x"
      "distinct (take m arr) \<longrightarrow> distinct T0"
      unfolding \<phi>_def by blast
    let ?s0 = "(permute \<phi> arr, out @ map join T0)"
    have loop: "\<exists>T. for_each [0 ..< i] ?body ?s0 = Some (permute \<phi> (A i), out @ map join T) \<and>
                  length T = Suc i * fact m \<and>
                  (\<forall>x\<in>set T. \<exists>i'\<le>i. rearr m (A i') x) \<and>
                  (distinct (take ?n arr) \<longrightarrow> distinct T) \<and>
                  rearr ?n arr (A i) \<and> rearr ?n arr (permute \<phi> (A i))"
      if "i \<le> m" for i
      using that
    proof (induction i)
      case 0
      have "distinct (take ?n arr) \<longrightarrow> distinct (take m arr)"
        by (metis distinct_take take_take min.cobounded2 min_def le_Suc_eq)
      with T0 show ?case
        by (intro exI [of _ T0]) (auto simp: A0 rearr_refl intro: rearr_mono)
    next
      case (Suc i)
      then have i: "i < m" "i \<le> m" by simp_all
      from Suc.IH [OF i(2)] obtain T where T:
        "for_each [0 ..< i] ?body ?s0 = Some (permute \<phi> (A i), out @ map join T)"
        "length T = Suc i * fact m" "\<forall>x\<in>set T. \<exists>i'\<le>i. rearr m (A i') x"
        "distinct (take ?n arr) \<longrightarrow> distinct T"
        "rearr ?n arr (A i)" "rearr ?n arr (permute \<phi> (A i))"
        by blast
      from outer [OF m _ f, of "A (Suc i)" "out @ map join T"] mL(2)
      obtain T' where T':
        "generate f (int m) (A (Suc i), out @ map join T)
           = Some (permute \<phi> (A (Suc i)), (out @ map join T) @ map join T')"
        "length T' = fact m" "rearr m (A (Suc i)) (permute \<phi> (A (Suc i)))"
        "\<forall>x\<in>set T'. rearr m (A (Suc i)) x"
        "distinct (take m (A (Suc i))) \<longrightarrow> distinct T'"
        unfolding \<phi>_def by (auto simp: lenA)
      have run: "for_each [0 ..< Suc i] ?body ?s0
                 = Some (permute \<phi> (A (Suc i)), out @ map join (T @ T'))"
      proof -
        have "for_each [0 ..< Suc i] ?body ?s0 = for_each ([0 ..< i] @ [i]) ?body ?s0" by simp
        also have "\<dots> = for_each [i] ?body (permute \<phi> (A i), out @ map join T)"
          by (simp only: for_each_append T(1) option.case)
        also have "\<dots> = ?body i (permute \<phi> (A i), out @ map join T)"
          by (rule for_each_single)
        also have "\<dots> = generate f (int m) (A (Suc i), out @ map join T)"
          by (simp only: body A_Suc [OF i(1)])
        finally show ?thesis by (simp add: T'(1))
      qed
      have rA: "rearr ?n arr (A (Suc i))"
      proof -
        from i(1) have "?pick i < ?n" "m < ?n" by simp_all
        moreover have "?n \<le> length (permute \<phi> (A i))"
          using \<open>Suc m \<le> length arr\<close> by (simp add: length_permute lenA)
        ultimately have "rearr ?n (permute \<phi> (A i)) (swap m (?pick i) (permute \<phi> (A i)))"
          by (intro rearr_swap)
        with T(6) show ?thesis unfolding A_Suc [OF i(1)] by (rule rearr_trans)
      qed
      have rP: "rearr ?n arr (permute \<phi> (A (Suc i)))"
        using rA rearr_mono [OF T'(3), of ?n] by (auto intro: rearr_trans)
      have members: "\<forall>x\<in>set (T @ T'). \<exists>i'\<le>Suc i. rearr m (A i') x"
      proof
        fix x assume "x \<in> set (T @ T')"
        then consider "x \<in> set T" | "x \<in> set T'" by auto
        then show "\<exists>i'\<le>Suc i. rearr m (A i') x"
        proof cases
          case 1
          with T(3) obtain i' where "i' \<le> i" "rearr m (A i') x" by blast
          then have "i' \<le> Suc i \<and> rearr m (A i') x" by simp
          then show ?thesis ..
        next
          case 2
          with T'(4) have "Suc i \<le> Suc i \<and> rearr m (A (Suc i)) x" by simp
          then show ?thesis ..
        qed
      qed
      have dist: "distinct (T @ T')" if d: "distinct (take ?n arr)"
      proof -
        from d T(4) have "distinct T" by simp
        moreover have "distinct T'"
        proof -
          from rA d have "distinct (take ?n (A (Suc i)))" by (rule rearr_distinct)
          then have "distinct (take m (A (Suc i)))"
            by (metis distinct_take take_take min.cobounded2 min_def le_Suc_eq)
          with T'(5) show ?thesis by simp
        qed
        moreover have "set T \<inter> set T' = {}"
        proof (rule ccontr)
          assume "set T \<inter> set T' \<noteq> {}"
          then obtain x where "x \<in> set T" "x \<in> set T'" by blast
          with T(3) T'(4) obtain i' where i': "i' \<le> i" "rearr m (A i') x" "rearr m (A (Suc i)) x"
            by blast
          from rearr_nth [OF i'(2), of m] rearr_nth [OF i'(3), of m] mL(1)
          have "A i' ! m = A (Suc i) ! m" by (simp add: lenA)
          then have same: "arr ! iter ?n i' m = arr ! iter ?n (Suc i) m"
            by (simp add: last_A)
          from m i i' have below: "iter ?n i' m < ?n" "iter ?n (Suc i) m < ?n"
            by (intro iter_below; simp)+
          from d below \<open>Suc m \<le> length arr\<close> same have "iter ?n i' m = iter ?n (Suc i) m"
            by (metis (no_types, lifting) distinct_conv_nth length_take min.absorb2 nth_take)
          moreover from m i i' have "iter ?n i' (?n - 1) \<noteq> iter ?n (Suc i) (?n - 1)"
            by (intro iter_distinct) simp_all
          ultimately show False by simp
        qed
        ultimately show ?thesis by simp
      qed
      show ?case
        using run T(2) T'(2) members dist rA rP
        by (intro exI [of _ "T @ T'"]) simp
    qed
    from loop [of m] obtain T where T:
      "for_each [0 ..< m] ?body ?s0 = Some (permute \<phi> (A m), out @ map join T)"
      "length T = Suc m * fact m" "\<forall>x\<in>set T. \<exists>i'\<le>m. rearr m (A i') x"
      "distinct (take ?n arr) \<longrightarrow> distinct T"
      "rearr ?n arr (A m)" "rearr ?n arr (permute \<phi> (A m))"
      by blast
    have final: "permute \<phi> (A m) = permute (heap_final ?n) arr"
    proof -
      have "permute \<phi> (A m) = permute (iter ?n m \<circ> \<phi>) arr"
        unfolding A_def by (intro permute_comp) (rule \<phi>_bound)
      also have "\<dots> = permute (heap_final ?n) arr"
      proof (rule permute_cong)
        fix p
        from m have "2 \<le> ?n" by simp
        from iter_final [OF this, of p] show "(iter ?n m \<circ> \<phi>) p = heap_final ?n p"
          by (simp add: \<phi>_def)
      qed
      finally show ?thesis .
    qed
    have "generate fuel (int ?n) (arr, out) = for_each [0 ..< m] ?body ?s0"
    proof -
      from m have "int ?n \<noteq> 1" by simp
      moreover have "nat (int ?n - 1) = m" "int ?n - 1 = int m" by simp_all
      ultimately show ?thesis
        unfolding fuel by (simp only: generate.simps if_False T0(1) option.case)
    qed
    with T(1) final have run: "generate fuel (int ?n) (arr, out)
                              = Some (permute (heap_final ?n) arr, out @ map join T)"
      by simp
    have "\<forall>x\<in>set T. rearr ?n arr x"
    proof
      fix x assume "x \<in> set T"
      with T(3) obtain i' where i': "i' \<le> m" "rearr m (A i') x" by blast
      from loop [OF i'(1)] have "rearr ?n arr (A i')" by blast
      moreover from i'(2) have "rearr ?n (A i') x" by (rule rearr_mono) simp
      ultimately show "rearr ?n arr x" by (rule rearr_trans)
    qed
    moreover have "length T = fact ?n" using T(2) by simp
    moreover have "rearr ?n arr (permute (heap_final ?n) arr)" using T(6) final by simp
    ultimately show ?thesis using run T(4) by blast
  qed
qed

text \<open>
  On a non-empty input of distinct code units, none of them paired into one code point,
  getPermutations yields \<open>n!\<close> strings, pairwise different, each with the units of the
  input.
\<close>

lemma mset_join:
  "mset (join x) = sum_mset (image_mset (\<lambda>e. mset (case e of None \<Rightarrow> [] | Some s \<Rightarrow> s)) (mset x))"
  by (induction x) (simp_all add: join_def)

lemma unjoin: "\<forall>e\<in>set x. \<exists>u. e = Some [u] \<Longrightarrow> map (\<lambda>u. Some [u]) (join x) = x"
  by (induction x) (auto simp: join_def)

lemma rearr_full:
  assumes "rearr (length arr) arr x"
  shows "mset x = mset arr"
proof -
  from assms have "length x = length arr" by (rule rearr_length)
  with assms show ?thesis by (simp add: rearr_def)
qed

lemma getPermutations_nonempty:
  assumes "chars \<noteq> []" "distinct chars" "length (spread chars) = length chars"
    "length chars \<le> fuel"
  shows "\<exists>out. getPermutations fuel chars = Some out \<and> length out = fact (length chars) \<and>
           (\<forall>p\<in>set out. mset p = mset chars) \<and> distinct out"
proof -
  let ?arr = "map Some (spread chars)"
  let ?n = "length chars"
  from assms(3) have sp: "spread chars = map (\<lambda>u. [u]) chars" by (rule spread_units)
  from assms have n: "1 \<le> ?n" "?n \<le> length ?arr" "?n \<le> fuel"
    by (simp_all add: Suc_le_eq)
  from generate_heap [OF n, of "[]"] obtain snaps where s:
    "generate fuel (int ?n) (?arr, []) = Some (permute (heap_final ?n) ?arr, map join snaps)"
    "length snaps = fact ?n" "\<forall>x\<in>set snaps. rearr ?n ?arr x"
    "distinct (take ?n ?arr) \<longrightarrow> distinct snaps"
    by auto
  have perm: "mset x = mset ?arr" if "x \<in> set snaps" for x
    using s(3) that rearr_full [of ?arr x] assms(3) by simp
  have single: "\<forall>e\<in>set x. \<exists>u. e = Some [u]" if "x \<in> set snaps" for x
  proof -
    from perm [OF that] have "set x = set ?arr" by (rule mset_eq_setD)
    then show ?thesis by (auto simp: sp)
  qed
  have "inj_on join (set snaps)"
    by (rule inj_on_inverseI [of _ "map (\<lambda>u. Some [u])"]) (rule unjoin [OF single])
  moreover have "distinct ?arr"
    using assms(2) unfolding sp by (simp add: distinct_map inj_on_def)
  with s(4) assms(3) have "distinct snaps" by simp
  ultimately have "distinct (map join snaps)" by (simp add: distinct_map)
  moreover have "mset p = mset chars" if "p \<in> set (map join snaps)" for p
  proof -
    from that obtain x where x: "x \<in> set snaps" "p = join x" by auto
    have "mset (join x) = mset (join ?arr)"
      by (simp only: mset_join perm [OF x(1)])
    then show ?thesis by (simp add: x(2) join_spread)
  qed
  ultimately show ?thesis using s(1,2) by (auto simp: getPermutations_def)
qed

section \<open>Properties of findStringInSnakingPuzzle\<close>

subsection \<open>The control structure\<close>

lemma or_else_Some:
  "or_else r rest = Some (b, st') \<longleftrightarrow>
     (r = Some (True, st') \<and> b) \<or> (\<exists>st2. r = Some (False, st2) \<and> rest st2 = Some (b, st'))"
  by (auto simp: or_else_def split: option.splits)

lemma for_first_sound:
  assumes run: "for_first xs body st = Some (b, st')"
      and body: "\<And>x b' st''. x \<in> set xs \<Longrightarrow> body x st = Some (b', st'') \<Longrightarrow>
             (b' \<longleftrightarrow> G x) \<and> (\<not> b' \<longrightarrow> st'' = st) \<and> (b' \<longrightarrow> Q st'')"
  shows "(b \<longleftrightarrow> (\<exists>x\<in>set xs. G x)) \<and> (\<not> b \<longrightarrow> st' = st) \<and> (b \<longrightarrow> Q st')"
  using run body
proof (induction xs)
  case Nil
  then show ?case by simp
next
  case (Cons x xs)
  have x_in: "x \<in> set (x # xs)" by simp
  from Cons.prems(1) have "or_else (body x st) (for_first xs body) = Some (b, st')" by simp
  then consider
      (hit) "body x st = Some (True, st')" "b"
    | (miss) st2 where "body x st = Some (False, st2)" "for_first xs body st2 = Some (b, st')"
    unfolding or_else_Some by blast
  then show ?case
  proof cases
    case hit
    from Cons.prems(2) [OF x_in hit(1)] have "G x" "Q st'" by simp_all
    with hit(2) x_in show ?thesis by blast
  next
    case miss
    from Cons.prems(2) [OF x_in miss(1)] have x: "\<not> G x" "st2 = st" by simp_all
    have "(b \<longleftrightarrow> (\<exists>x\<in>set xs. G x)) \<and> (\<not> b \<longrightarrow> st' = st) \<and> (b \<longrightarrow> Q st')"
    proof (rule Cons.IH)
      show "for_first xs body st = Some (b, st')" using miss(2) x(2) by simp
    next
      fix y b' st''
      assume "y \<in> set xs" "body y st = Some (b', st'')"
      then show "(b' \<longleftrightarrow> G y) \<and> (\<not> b' \<longrightarrow> st'' = st) \<and> (b' \<longrightarrow> Q st'')"
        by (intro Cons.prems(2)) simp_all
    qed
    with x(1) show ?thesis by simp
  qed
qed

lemma for_first_total:
  assumes "\<And>x. x \<in> set xs \<Longrightarrow> \<exists>b' st''. body x st = Some (b', st'') \<and> (\<not> b' \<longrightarrow> st'' = st)"
  shows "\<exists>r. for_first xs body st = Some r"
  using assms
proof (induction xs)
  case Nil
  show ?case by auto
next
  case (Cons x xs)
  from Cons.prems [of x] obtain b' st''
    where x: "body x st = Some (b', st'')" "\<not> b' \<longrightarrow> st'' = st" by auto
  have "\<exists>r. for_first xs body st = Some r"
    by (rule Cons.IH) (simp add: Cons.prems)
  then obtain r where "for_first xs body st = Some r" ..
  with x show ?case by (cases b') (auto simp: or_else_def)
qed

lemma for_first_hit:
  assumes run: "for_first xs body st = Some (True, st')"
      and body: "\<And>x b' st''. x \<in> set xs \<Longrightarrow> body x st = Some (b', st'') \<Longrightarrow>
             (\<not> b' \<longrightarrow> st'' = st) \<and> (b' \<longrightarrow> Q st'')"
  shows "Q st'"
proof -
  have "(True \<longleftrightarrow> (\<exists>x\<in>set xs. \<exists>st''. body x st = Some (True, st''))) \<and>
        (\<not> True \<longrightarrow> st' = st) \<and> (True \<longrightarrow> Q st')"
    using run
  proof (rule for_first_sound)
    fix x b' st''
    assume "x \<in> set xs" "body x st = Some (b', st'')"
    with body [OF this]
    show "(b' \<longleftrightarrow> (\<exists>st''. body x st = Some (True, st''))) \<and> (\<not> b' \<longrightarrow> st'' = st) \<and> (b' \<longrightarrow> Q st'')"
      by auto
  qed
  then show ?thesis by simp
qed

subsection \<open>What a call of canFindStartedFrom computes\<close>

text \<open>Marking and unmarking.\<close>

lemma true_cells_mark: "true_cells (mark i j st) = insert (i, j) (true_cells st)"
  by (auto simp: true_cells_def mark_def)

lemma index_mark: "index (mark i j st) = index st + 1"
  by (simp add: mark_def)

lemma shaped_mark: "shaped puzzle st \<Longrightarrow> cell_char puzzle (i, j) \<noteq> None \<Longrightarrow> shaped puzzle (mark i j st)"
  by (auto simp: shaped_def mark_def)

lemma unmark_mark:
  assumes "shaped puzzle st" "cell_char puzzle (i, j) \<noteq> None" "unvisited st i j"
  shows "unmark i j (mark i j st) = st"
proof -
  from assms(1,2) obtain v where "visited st (i, j) = Some v"
    unfolding shaped_def by blast
  with assms(3) have "visited st (i, j) = Some False"
    by (cases v) (simp_all add: unvisited_def)
  then have "(visited st)((i, j) \<mapsto> False) = visited st"
    by (rule map_upd_triv)
  then show ?thesis by (simp add: unmark_def mark_def)
qed

lemma matches_iff:
  assumes "0 \<le> index st" "index st < int (length s)"
  shows "matches puzzle s i j st \<longleftrightarrow> cell_char puzzle (i, j) = Some (s ! nat (index st))"
  using assms
  by (auto simp: matches_def cell_char_def js_nth_def split: option.splits)

lemma snake_from_head:
  "snake_from puzzle avoid c w \<Longrightarrow> c \<notin> avoid \<and> cell_char puzzle c \<noteq> None"
  by (cases w) auto

lemma cell_char_row: "cell_char puzzle (i, j) = Some y \<Longrightarrow> row_exists puzzle i"
  by (auto simp: cell_char_def row_exists_def js_nth_def split: option.splits if_splits)

lemma blocked_no_snake:
  assumes "\<not> may_enter puzzle d i j st"
  shows "\<not> snake_from puzzle (true_cells st) (neighbour d (i, j)) w"
proof
  assume "snake_from puzzle (true_cells st) (neighbour d (i, j)) w"
  then have "neighbour d (i, j) \<notin> true_cells st" "cell_char puzzle (neighbour d (i, j)) \<noteq> None"
    by (auto dest: snake_from_head)
  with assms show False
    by (cases d) (auto simp: unvisited_def true_cells_def dest: cell_char_row)
qed

lemma may_enter_unvisited:
  "may_enter puzzle d i j st \<Longrightarrow> unvisited st (fst (neighbour d (i, j))) (snd (neighbour d (i, j)))"
  by (cases d) auto

text \<open>
  In a state a caller can produce (the mask has the shape of the puzzle, the index is
  inside the string, the cell entered is not marked), a call that returns has returned
  whether a snake for the rest of the string starts at the cell; with false the state is
  the one on entry, with true the index is the length of the string.  This holds
  whatever the order of the four directions.
\<close>

lemma canFindOrdered_sound:
  assumes dirs: "set dirs = UNIV"
  shows "shaped puzzle st \<Longrightarrow> 0 \<le> index st \<Longrightarrow> index st < int (length s) \<Longrightarrow> unvisited st i j \<Longrightarrow>
         canFindOrdered dirs puzzle s fuel i j st = Some (b, st') \<Longrightarrow>
         (b \<longleftrightarrow> snake_from puzzle (true_cells st) (i, j) (drop (nat (index st)) s)) \<and>
         (\<not> b \<longrightarrow> st' = st) \<and>
         (b \<longrightarrow> index st' = int (length s) \<and> shaped puzzle st')"
proof (induction fuel arbitrary: i j st b st')
  case 0
  then show ?case by simp
next
  case (Suc fuel)
  let ?st1 = "mark i j st"
  define k where "k = nat (index st)"
  define x where "x = s ! k"
  define w where "w = drop (Suc k) s"
  from Suc.prems have k: "k < length s" by (simp add: k_def)
  then have word: "drop (nat (index st)) s = x # w"
    by (simp add: Cons_nth_drop_Suc k_def x_def w_def)
  have m: "matches puzzle s i j st \<longleftrightarrow> cell_char puzzle (i, j) = Some x"
    unfolding x_def k_def using Suc.prems(2,3) by (rule matches_iff)
  have fresh: "(i, j) \<notin> true_cells st"
    using Suc.prems(4) by (simp add: unvisited_def true_cells_def)
  have k1: "nat (index ?st1) = Suc k"
    using Suc.prems(2) by (simp add: mark_def nat_add_distrib k_def)
  have word1: "drop (nat (index ?st1)) s = w"
    by (simp only: k1 w_def)
  have w_Nil: "w = [] \<longleftrightarrow> index ?st1 = int (length s)"
    using k Suc.prems(2) by (auto simp: w_def k_def mark_def)
  show ?case
  proof (cases "matches puzzle s i j st")
    case False
    with Suc.prems(5) have "\<not> b" "st' = st" by simp_all
    with False m show ?thesis by (simp add: word)
  next
    case True
    with m have cc: "cell_char puzzle (i, j) = Some x" by simp
    have sh1: "shaped puzzle ?st1" using Suc.prems(1) cc by (simp add: shaped_mark)
    have snake: "snake_from puzzle (true_cells st) (i, j) (drop (nat (index st)) s) \<longleftrightarrow>
                 w = [] \<or> (\<exists>d. snake_from puzzle (true_cells ?st1) (neighbour d (i, j)) w)"
      unfolding word true_cells_mark using cc fresh by simp
    show ?thesis
    proof (cases "index ?st1 = int (length s)")
      case last: True
      with True Suc.prems(5) have "b" "st' = ?st1" by (simp_all add: Let_def)
      with last w_Nil sh1 snake show ?thesis by blast
    next
      case more: False
      with Suc.prems(2,3) have in1: "0 \<le> index ?st1" "index ?st1 < int (length s)"
        by (simp_all add: mark_def)
      from more w_Nil have rest: "w \<noteq> []" by simp
      let ?body = "\<lambda>d st'. guarded (may_enter puzzle d i j st')
                     (canFindOrdered dirs puzzle s fuel
                        (fst (neighbour d (i, j))) (snd (neighbour d (i, j)))) st'"
      let ?G = "\<lambda>d. snake_from puzzle (true_cells ?st1) (neighbour d (i, j)) w"
      let ?Q = "\<lambda>st''. index st'' = int (length s) \<and> shaped puzzle st''"
      have body: "(b' \<longleftrightarrow> ?G d) \<and> (\<not> b' \<longrightarrow> st'' = ?st1) \<and> (b' \<longrightarrow> ?Q st'')"
        if "?body d ?st1 = Some (b', st'')" for d b' st''
      proof (cases "may_enter puzzle d i j ?st1")
        case False
        with that blocked_no_snake [OF False] show ?thesis by (simp add: guarded_def)
      next
        case True
        with that have "canFindOrdered dirs puzzle s fuel
                          (fst (neighbour d (i, j))) (snd (neighbour d (i, j))) ?st1 = Some (b', st'')"
          by (simp add: guarded_def)
        from Suc.IH [OF sh1 in1 may_enter_unvisited [OF True] this]
        show ?thesis unfolding word1 by simp
      qed
      from more True Suc.prems(5)
      have run: "or_else (for_first dirs ?body ?st1) (\<lambda>st5. Some (False, unmark i j st5)) = Some (b, st')"
        by (simp add: Let_def)
      then consider
          (hit) "for_first dirs ?body ?st1 = Some (True, st')" "b"
        | (miss) st2 where "for_first dirs ?body ?st1 = Some (False, st2)" "\<not> b" "st' = unmark i j st2"
        by (auto simp: or_else_Some)
      then show ?thesis
      proof cases
        case hit
        from for_first_sound [where G = ?G and Q = ?Q, OF hit(1)] body
        have "(\<exists>d\<in>set dirs. ?G d) \<and> ?Q st'" by blast
        with hit(2) snake show ?thesis by blast
      next
        case miss
        from for_first_sound [where G = ?G and Q = ?Q, OF miss(1)] body
        have no: "\<not> (\<exists>d\<in>set dirs. ?G d)" and st2: "st2 = ?st1" by blast+
        from no dirs have "\<not> (\<exists>d. ?G d)" by simp
        moreover have "st' = st"
          using miss(3) st2 unmark_mark [OF Suc.prems(1) _ Suc.prems(4)] cc by simp
        ultimately show ?thesis using miss(2) rest snake by blast
      qed
    qed
  qed
qed

text \<open>
  A call that returns true has marked the cells of a path that reads the rest of the
  string from the cell, and has changed no other mark.
\<close>

lemma snake_path_single:
  "cell_char puzzle c = Some x \<Longrightarrow> c \<notin> avoid \<Longrightarrow> snake_path puzzle avoid [c] [x]"
  by (simp add: snake_path_def)

lemma snake_path_Cons:
  assumes "cell_char puzzle c = Some x" "c \<notin> avoid"
    and p: "snake_path puzzle (insert c avoid) (c' # p) w" and d: "c' = neighbour d c"
  shows "snake_path puzzle avoid (c # c' # p) (x # w)"
proof -
  from p have len: "length (c' # p) = length w" and dist: "distinct (c' # p)"
    and off: "set (c' # p) \<inter> insert c avoid = {}"
    and sym: "\<And>k. k < length (c' # p) \<Longrightarrow> cell_char puzzle ((c' # p) ! k) = Some (w ! k)"
    and adj: "\<And>k. Suc k < length (c' # p) \<Longrightarrow> \<exists>d. (c' # p) ! Suc k = neighbour d ((c' # p) ! k)"
    unfolding snake_path_def by blast+
  have "cell_char puzzle ((c # c' # p) ! k) = Some ((x # w) ! k)" if "k < length (c # c' # p)" for k
  proof (cases k)
    case 0
    with assms(1) show ?thesis by simp
  next
    case (Suc m)
    with that sym [of m] show ?thesis by simp
  qed
  moreover have "\<exists>d. (c # c' # p) ! Suc k = neighbour d ((c # c' # p) ! k)"
    if "Suc k < length (c # c' # p)" for k
  proof (cases k)
    case 0
    with d show ?thesis by auto
  next
    case (Suc m)
    with that adj [of m] show ?thesis by simp
  qed
  moreover from off dist have "distinct (c # c' # p)" by auto
  moreover from off assms(2) have "set (c # c' # p) \<inter> avoid = {}" by auto
  ultimately show ?thesis using len unfolding snake_path_def by simp
qed

lemma canFindOrdered_path:
  assumes dirs: "set dirs = UNIV"
  shows "shaped puzzle st \<Longrightarrow> 0 \<le> index st \<Longrightarrow> index st < int (length s) \<Longrightarrow> unvisited st i j \<Longrightarrow>
         canFindOrdered dirs puzzle s fuel i j st = Some (True, st') \<Longrightarrow>
         \<exists>p. snake_path puzzle (true_cells st) ((i, j) # p) (drop (nat (index st)) s) \<and>
             true_cells st' = true_cells st \<union> set ((i, j) # p)"
proof (induction fuel arbitrary: i j st st')
  case 0
  then show ?case by simp
next
  case (Suc fuel)
  let ?st1 = "mark i j st"
  define k where "k = nat (index st)"
  define x where "x = s ! k"
  define w where "w = drop (Suc k) s"
  from Suc.prems have k: "k < length s" by (simp add: k_def)
  then have word: "drop (nat (index st)) s = x # w"
    by (simp add: Cons_nth_drop_Suc k_def x_def w_def)
  have m: "matches puzzle s i j st \<longleftrightarrow> cell_char puzzle (i, j) = Some x"
    unfolding x_def k_def using Suc.prems(2,3) by (rule matches_iff)
  have fresh: "(i, j) \<notin> true_cells st"
    using Suc.prems(4) by (simp add: unvisited_def true_cells_def)
  have k1: "nat (index ?st1) = Suc k"
    using Suc.prems(2) by (simp add: mark_def nat_add_distrib k_def)
  have word1: "drop (nat (index ?st1)) s = w"
    by (simp only: k1 w_def)
  have w_Nil: "w = [] \<longleftrightarrow> index ?st1 = int (length s)"
    using k Suc.prems(2) by (auto simp: w_def k_def mark_def)
  from Suc.prems(5) have True: "matches puzzle s i j st"
    by (cases "matches puzzle s i j st") simp_all
  with m have cc: "cell_char puzzle (i, j) = Some x" by simp
  have sh1: "shaped puzzle ?st1" using Suc.prems(1) cc by (simp add: shaped_mark)
  show ?case
  proof (cases "index ?st1 = int (length s)")
    case last: True
    with True Suc.prems(5) have "st' = ?st1" by (simp add: Let_def)
    moreover from last w_Nil cc fresh
    have "snake_path puzzle (true_cells st) [(i, j)] (drop (nat (index st)) s)"
      by (simp add: word snake_path_single)
    ultimately show ?thesis by (auto simp: true_cells_mark)
  next
    case more: False
    with Suc.prems(2,3) have in1: "0 \<le> index ?st1" "index ?st1 < int (length s)"
      by (simp_all add: mark_def)
    let ?body = "\<lambda>d st'. guarded (may_enter puzzle d i j st')
                   (canFindOrdered dirs puzzle s fuel
                      (fst (neighbour d (i, j))) (snd (neighbour d (i, j)))) st'"
    let ?Q = "\<lambda>st''. \<exists>d p. snake_path puzzle (true_cells ?st1) (neighbour d (i, j) # p) w \<and>
                true_cells st'' = true_cells ?st1 \<union> set (neighbour d (i, j) # p)"
    have body: "(\<not> b' \<longrightarrow> st'' = ?st1) \<and> (b' \<longrightarrow> ?Q st'')"
      if "?body d ?st1 = Some (b', st'')" for d b' st''
    proof (cases "may_enter puzzle d i j ?st1")
      case False
      with that show ?thesis by (simp add: guarded_def)
    next
      case enter: True
      with that have r: "canFindOrdered dirs puzzle s fuel
                        (fst (neighbour d (i, j))) (snd (neighbour d (i, j))) ?st1 = Some (b', st'')"
        by (simp add: guarded_def)
      note nb = may_enter_unvisited [OF enter]
      from canFindOrdered_sound [OF dirs sh1 in1 nb r] have miss: "\<not> b' \<longrightarrow> st'' = ?st1" by simp
      have "?Q st''" if "b'"
      proof -
        from r that have "canFindOrdered dirs puzzle s fuel
                        (fst (neighbour d (i, j))) (snd (neighbour d (i, j))) ?st1 = Some (True, st'')"
          by simp
        from Suc.IH [OF sh1 in1 nb this] show ?thesis
          unfolding word1 by auto
      qed
      with miss show ?thesis by simp
    qed
    from more True Suc.prems(5)
    have "or_else (for_first dirs ?body ?st1) (\<lambda>st5. Some (False, unmark i j st5)) = Some (True, st')"
      by (simp add: Let_def)
    then have "for_first dirs ?body ?st1 = Some (True, st')"
      by (auto simp: or_else_Some)
    from for_first_hit [where Q = ?Q, OF this] body have "?Q st'" by blast
    then obtain d p where p: "snake_path puzzle (true_cells ?st1) (neighbour d (i, j) # p) w"
      "true_cells st' = true_cells ?st1 \<union> set (neighbour d (i, j) # p)"
      by blast
    from cc fresh p(1) [unfolded true_cells_mark]
    have "snake_path puzzle (true_cells st) ((i, j) # neighbour d (i, j) # p) (x # w)"
      by (rule snake_path_Cons) simp
    with p(2) show ?thesis unfolding word true_cells_mark by auto
  qed
qed

text \<open>Depth: each level of the recursion matches one more symbol.\<close>

lemma canFindOrdered_total:
  assumes dirs: "set dirs = UNIV"
  shows "shaped puzzle st \<Longrightarrow> 0 \<le> index st \<Longrightarrow> index st < int (length s) \<Longrightarrow> unvisited st i j \<Longrightarrow>
         length s - nat (index st) \<le> fuel \<Longrightarrow>
         \<exists>r. canFindOrdered dirs puzzle s fuel i j st = Some r"
proof (induction fuel arbitrary: i j st)
  case 0
  then show ?case by simp
next
  case (Suc fuel)
  let ?st1 = "mark i j st"
  show ?case
  proof (cases "matches puzzle s i j st \<and> index ?st1 \<noteq> int (length s)")
    case False
    then show ?thesis by (auto simp: Let_def)
  next
    case True
    with Suc.prems(2,3) have in1: "0 \<le> index ?st1" "index ?st1 < int (length s)"
      by (simp_all add: mark_def)
    from True Suc.prems(2,3) have "cell_char puzzle (i, j) \<noteq> None"
      by (simp add: matches_iff)
    with Suc.prems(1) have sh1: "shaped puzzle ?st1" by (simp add: shaped_mark)
    from Suc.prems(2,5) have fuel1: "length s - nat (index ?st1) \<le> fuel"
      by (simp add: mark_def nat_add_distrib)
    let ?body = "\<lambda>d st'. guarded (may_enter puzzle d i j st')
                   (canFindOrdered dirs puzzle s fuel
                      (fst (neighbour d (i, j))) (snd (neighbour d (i, j)))) st'"
    have "\<exists>b' st''. ?body d ?st1 = Some (b', st'') \<and> (\<not> b' \<longrightarrow> st'' = ?st1)" for d
    proof (cases "may_enter puzzle d i j ?st1")
      case False
      then show ?thesis by (auto simp: guarded_def)
    next
      case enter: True
      note nb = may_enter_unvisited [OF enter]
      from Suc.IH [OF sh1 in1 nb fuel1] obtain b' st''
        where r: "canFindOrdered dirs puzzle s fuel
                    (fst (neighbour d (i, j))) (snd (neighbour d (i, j))) ?st1 = Some (b', st'')"
        by fastforce
      from canFindOrdered_sound [OF dirs sh1 in1 nb r] have "\<not> b' \<longrightarrow> st'' = ?st1" by simp
      with r enter show ?thesis by (simp add: guarded_def)
    qed
    then have "\<exists>r. for_first dirs ?body ?st1 = Some r"
      by (intro for_first_total) blast
    then obtain b2 st2 where "for_first dirs ?body ?st1 = Some (b2, st2)" by fastforce
    with True show ?thesis by (auto simp: Let_def or_else_def)
  qed
qed

text \<open>The search of the source is the one with the order up, down, left, right.\<close>

lemma or_else_assoc: "or_else (or_else r f) g = or_else r (\<lambda>st. or_else (f st) g)"
  by (cases r) (auto simp: or_else_def)

lemma or_else_miss: "or_else (Some (False, st)) g = g st"
  by (simp add: or_else_def)

lemma canFindStartedFrom_ordered:
  "canFindStartedFrom puzzle s fuel i j st = canFindOrdered [Up, Down, Left, Right] puzzle s fuel i j st"
proof (induction fuel arbitrary: i j st)
  case 0
  show ?case by simp
next
  case (Suc fuel)
  have "canFindStartedFrom puzzle s fuel = canFindOrdered [Up, Down, Left, Right] puzzle s fuel"
    by (intro ext) (rule Suc.IH)
  then show ?case
    by (simp add: Let_def or_else_assoc or_else_miss)
qed

subsection \<open>What the search returns\<close>

lemma init_index: "index (init_state puzzle) = 0"
  by (simp add: init_state_def)

lemma init_true_cells: "true_cells (init_state puzzle) = {}"
  by (auto simp: true_cells_def init_state_def split: option.splits)

lemma init_shaped: "shaped puzzle (init_state puzzle)"
  by (auto simp: shaped_def init_state_def cell_char_def js_nth_def split: option.splits)

lemma init_unvisited: "unvisited (init_state puzzle) i j"
  using init_true_cells [of puzzle] by (auto simp: unvisited_def true_cells_def)

lemma canFindOrdered_run:
  assumes "set dirs = UNIV" "shaped puzzle st" "0 \<le> index st" "index st < int (length s)"
    "unvisited st i j" "length s - nat (index st) \<le> fuel"
  shows "\<exists>st'. canFindOrdered dirs puzzle s fuel i j st =
                 Some (snake_from puzzle (true_cells st) (i, j) (drop (nat (index st)) s), st') \<and>
               (if snake_from puzzle (true_cells st) (i, j) (drop (nat (index st)) s)
                then index st' = int (length s) else st' = st)"
proof -
  from canFindOrdered_total [OF assms] obtain b st'
    where r: "canFindOrdered dirs puzzle s fuel i j st = Some (b, st')" by fastforce
  from canFindOrdered_sound [OF assms(1-5) r] r show ?thesis by auto
qed

lemma cell_char_nat:
  "i < length puzzle \<Longrightarrow> j < length (puzzle ! i) \<Longrightarrow> cell_char puzzle (int i, int j) = Some (puzzle ! i ! j)"
  by (simp add: cell_char_def js_nth_def)

lemma cell_char_Some:
  assumes "cell_char puzzle c = Some x"
  shows "\<exists>i j. c = (int i, int j) \<and> i < length puzzle \<and> j < length (puzzle ! i) \<and> puzzle ! i ! j = x"
proof -
  obtain a b where c: "c = (a, b)" by (cases c)
  from assms have "0 \<le> a" "a < int (length puzzle)" "0 \<le> b" "b < int (length (puzzle ! nat a))"
    "puzzle ! nat a ! nat b = x"
    unfolding c cell_char_def js_nth_def by (auto split: option.splits if_splits)
  then have "c = (int (nat a), int (nat b)) \<and> nat a < length puzzle \<and>
             nat b < length (puzzle ! nat a) \<and> puzzle ! nat a ! nat b = x"
    by (simp add: c nat_less_iff)
  then show ?thesis by blast
qed

lemma searchOrdered_run:
  assumes dirs: "set dirs = UNIV" and fuel: "length s < fuel"
  shows "\<exists>st'. searchOrdered dirs fuel puzzle s = Some (has_snake puzzle s, st') \<and>
               (if has_snake puzzle s then index st' = int (length s) else st' = init_state puzzle)"
proof -
  let ?init = "init_state puzzle"
  let ?call = "\<lambda>i j. canFindOrdered dirs puzzle s fuel (int i) (int j)"
  let ?G = "\<lambda>i j. snake_from puzzle {} (int i, int j) s"
  let ?Q = "\<lambda>st'. index st' = int (length s)"
  have call: "\<exists>st'. ?call i j ?init = Some (?G i j, st') \<and> (if ?G i j then ?Q st' else st' = ?init)"
    if "i < length puzzle" "j < length (puzzle ! i)" for i j
  proof (cases "s = []")
    case True
    from fuel obtain n where "fuel = Suc n" by (cases fuel) auto
    with True that show ?thesis
      by (simp add: matches_def js_nth_def init_index)
  next
    case False
    with fuel canFindOrdered_run [OF dirs init_shaped, of puzzle s "int i" "int j" fuel]
    show ?thesis by (simp add: init_index init_unvisited init_true_cells)
  qed
  let ?row = "\<lambda>i. for_first [0 ..< length (puzzle ! i)] (?call i)"
  let ?R = "\<lambda>i. \<exists>j\<in>set [0 ..< length (puzzle ! i)]. ?G i j"
  have row: "\<exists>st'. ?row i ?init = Some (?R i, st') \<and> (if ?R i then ?Q st' else st' = ?init)"
    if i: "i < length puzzle" for i
  proof -
    have "\<exists>r. ?row i ?init = Some r"
    proof (rule for_first_total)
      fix j assume "j \<in> set [0 ..< length (puzzle ! i)]"
      with call [OF i, of j]
      show "\<exists>b' st''. ?call i j ?init = Some (b', st'') \<and> (\<not> b' \<longrightarrow> st'' = ?init)"
        by (cases "?G i j") auto
    qed
    then obtain b st' where r: "?row i ?init = Some (b, st')" by fastforce
    have "(b \<longleftrightarrow> ?R i) \<and> (\<not> b \<longrightarrow> st' = ?init) \<and> (b \<longrightarrow> ?Q st')"
      using r
    proof (rule for_first_sound)
      fix j b' st''
      assume "j \<in> set [0 ..< length (puzzle ! i)]" "?call i j ?init = Some (b', st'')"
      with call [OF i, of j]
      show "(b' \<longleftrightarrow> ?G i j) \<and> (\<not> b' \<longrightarrow> st'' = ?init) \<and> (b' \<longrightarrow> ?Q st'')"
        by (cases "?G i j") auto
    qed
    with r show ?thesis by auto
  qed
  let ?S = "\<exists>i\<in>set [0 ..< length puzzle]. ?R i"
  have "\<exists>r. for_first [0 ..< length puzzle] ?row ?init = Some r"
  proof (rule for_first_total)
    fix i assume "i \<in> set [0 ..< length puzzle]"
    with row [of i]
    show "\<exists>b' st''. ?row i ?init = Some (b', st'') \<and> (\<not> b' \<longrightarrow> st'' = ?init)"
      by (cases "?R i") auto
  qed
  then obtain b st' where r: "for_first [0 ..< length puzzle] ?row ?init = Some (b, st')"
    by fastforce
  have "(b \<longleftrightarrow> ?S) \<and> (\<not> b \<longrightarrow> st' = ?init) \<and> (b \<longrightarrow> ?Q st')"
    using r
  proof (rule for_first_sound)
    fix i b' st''
    assume "i \<in> set [0 ..< length puzzle]" "?row i ?init = Some (b', st'')"
    with row [of i]
    show "(b' \<longleftrightarrow> ?R i) \<and> (\<not> b' \<longrightarrow> st'' = ?init) \<and> (b' \<longrightarrow> ?Q st'')"
      by (cases "?R i") auto
  qed
  moreover have "?S \<longleftrightarrow> has_snake puzzle s"
  proof
    assume ?S
    then show "has_snake puzzle s" unfolding has_snake_def by blast
  next
    assume "has_snake puzzle s"
    then obtain c where c: "snake_from puzzle {} c s" unfolding has_snake_def ..
    then obtain x where "cell_char puzzle c = Some x" by (cases s) auto
    then obtain i j where "c = (int i, int j)" "i < length puzzle" "j < length (puzzle ! i)"
      using cell_char_Some by blast
    with c have "i \<in> set [0 ..< length puzzle]" "j \<in> set [0 ..< length (puzzle ! i)]" "?G i j"
      by simp_all
    then show ?S by blast
  qed
  ultimately show ?thesis using r by (auto simp: searchOrdered_def)
qed

text \<open>A search that returns true has marked exactly the cells of a path that reads the string.\<close>

lemma searchOrdered_path:
  assumes dirs: "set dirs = UNIV" and run: "searchOrdered dirs fuel puzzle s = Some (True, st')"
  shows "\<exists>p. snake_path puzzle {} p s \<and> true_cells st' = set p"
proof -
  let ?init = "init_state puzzle"
  let ?call = "\<lambda>i j. canFindOrdered dirs puzzle s fuel (int i) (int j)"
  let ?Q = "\<lambda>st'. \<exists>p. snake_path puzzle {} p s \<and> true_cells st' = set p"
  have call: "(\<not> b' \<longrightarrow> st'' = ?init) \<and> (b' \<longrightarrow> ?Q st'')"
    if "i < length puzzle" "j < length (puzzle ! i)" "?call i j ?init = Some (b', st'')"
    for i j b' st''
  proof (cases "s = []")
    case True
    from that(3) obtain n where "fuel = Suc n" by (cases fuel) auto
    with True that show ?thesis
      by (simp add: matches_def js_nth_def init_index)
  next
    case False
    then have pre: "shaped puzzle ?init" "0 \<le> index ?init" "index ?init < int (length s)"
      "unvisited ?init (int i) (int j)"
      by (simp_all add: init_shaped init_index init_unvisited)
    from canFindOrdered_sound [OF dirs pre that(3)] have miss: "\<not> b' \<longrightarrow> st'' = ?init" by simp
    have "?Q st''" if "b'"
    proof -
      from \<open>?call i j ?init = Some (b', st'')\<close> that
      have "?call i j ?init = Some (True, st'')" by simp
      from canFindOrdered_path [OF dirs pre this] show ?thesis
        by (auto simp: init_index init_true_cells)
    qed
    with miss show ?thesis by simp
  qed
  let ?row = "\<lambda>i. for_first [0 ..< length (puzzle ! i)] (?call i)"
  have row: "(\<not> b' \<longrightarrow> st'' = ?init) \<and> (b' \<longrightarrow> ?Q st'')"
    if i: "i < length puzzle" and r: "?row i ?init = Some (b', st'')" for i b' st''
  proof -
    have "(b' \<longleftrightarrow> (\<exists>j\<in>set [0 ..< length (puzzle ! i)]. \<exists>st''. ?call i j ?init = Some (True, st''))) \<and>
          (\<not> b' \<longrightarrow> st'' = ?init) \<and> (b' \<longrightarrow> ?Q st'')"
      using r
    proof (rule for_first_sound)
      fix j b2 st2
      assume "j \<in> set [0 ..< length (puzzle ! i)]" "?call i j ?init = Some (b2, st2)"
      with call [OF i, of j b2 st2]
      show "(b2 \<longleftrightarrow> (\<exists>st''. ?call i j ?init = Some (True, st''))) \<and>
            (\<not> b2 \<longrightarrow> st2 = ?init) \<and> (b2 \<longrightarrow> ?Q st2)"
        by auto
    qed
    then show ?thesis by simp
  qed
  from run have "for_first [0 ..< length puzzle] ?row ?init = Some (True, st')"
    by (simp add: searchOrdered_def)
  then show ?thesis
  proof (rule for_first_hit)
    fix i b' st''
    assume "i \<in> set [0 ..< length puzzle]" "?row i ?init = Some (b', st'')"
    then show "(\<not> b' \<longrightarrow> st'' = ?init) \<and> (b' \<longrightarrow> ?Q st'')"
      by (intro row) simp_all
  qed
qed

subsection \<open>The instrumented search\<close>

lemma finite_cells: "finite {c. cell_char puzzle c \<noteq> None}"
proof -
  have "{c. cell_char puzzle c \<noteq> None} \<subseteq>
        (\<lambda>(i, j). (int i, int j)) ` (SIGMA i : {..< length puzzle}. {..< length (puzzle ! i)})"
  proof
    fix c assume "c \<in> {c. cell_char puzzle c \<noteq> None}"
    then obtain x where "cell_char puzzle c = Some x" by auto
    from cell_char_Some [OF this] obtain i j
      where "c = (int i, int j)" "i < length puzzle" "j < length (puzzle ! i)" by blast
    then show "c \<in> (\<lambda>(i, j). (int i, int j)) ` (SIGMA i : {..< length puzzle}. {..< length (puzzle ! i)})"
      by force
  qed
  then show ?thesis by (rule finite_subset) simp
qed

lemma shaped_finite: "shaped puzzle st \<Longrightarrow> finite (true_cells st)"
proof (rule finite_subset [OF _ finite_cells [of puzzle]])
  assume "shaped puzzle st"
  then show "true_cells st \<subseteq> {c. cell_char puzzle c \<noteq> None}"
    by (auto simp: shaped_def true_cells_def)
qed

lemma count_ok_mark:
  assumes "shaped puzzle st" "count_ok st" "unvisited st i j"
  shows "count_ok (mark i j st)"
proof -
  from assms(3) have "(i, j) \<notin> true_cells st" by (simp add: unvisited_def true_cells_def)
  with shaped_finite [OF assms(1)] assms(2) show ?thesis
    by (simp add: count_ok_def true_cells_mark index_mark)
qed

lemma count_ok_init: "count_ok (init_state puzzle)"
  by (simp add: count_ok_def init_true_cells init_index)

lemma fst_mark_logged: "fst (mark_logged i j t) = mark i j (fst t)"
  by (simp add: mark_logged_def mark_def Let_def)

lemma fst_unmark_logged: "fst (unmark_logged i j t) = unmark i j (fst t)"
  by (simp add: unmark_logged_def unmark_def Let_def)

lemma true_cells_index: "true_cells (st\<lparr>index := k\<rparr>) = true_cells st"
  by (simp add: true_cells_def)

lemma log_ok_mark:
  assumes "log_ok h t" "count_ok (mark i j (fst t))"
  shows "log_ok h (mark_logged i j t)"
proof -
  from assms(1) have "count_ok (fst t)" by (simp add: log_ok_def)
  then have "entry_ok (Index_raised, (fst t)\<lparr>index := index (fst t) + 1\<rparr>)"
    by (simp add: entry_ok_def count_ok_def true_cells_index)
  moreover from assms(2) have "entry_ok (Marked, mark i j (fst t))"
    by (simp add: entry_ok_def count_ok_def)
  ultimately show ?thesis
    using assms by (simp add: log_ok_def mark_logged_def mark_def Let_def)
qed

lemma log_ok_unmark:
  assumes "log_ok h t" "count_ok (unmark i j (fst t))"
  shows "log_ok h (unmark_logged i j t)"
proof -
  from assms(1) have "count_ok (fst t)" by (simp add: log_ok_def)
  then have "entry_ok (Index_lowered, (fst t)\<lparr>index := index (fst t) - 1\<rparr>)"
    by (simp add: entry_ok_def count_ok_def true_cells_index)
  moreover from assms(2) have "entry_ok (Unmarked, unmark i j (fst t))"
    by (simp add: entry_ok_def count_ok_def)
  ultimately show ?thesis
    using assms by (simp add: log_ok_def unmark_logged_def unmark_def Let_def)
qed

lemma forget_or_else:
  assumes "forget r = r'" "\<And>t. forget (rest t) = rest' (fst t)"
  shows "forget (or_else r rest) = or_else r' rest'"
  using assms by (auto simp: forget_def or_else_def split: option.splits)

lemma forget_guarded:
  assumes "forget (call t) = call' (fst t)"
  shows "forget (guarded g call t) = guarded g call' (fst t)"
  using assms by (simp add: guarded_def forget_def)

lemma forget_canFindLogged:
  "forget (canFindLogged puzzle s fuel i j t) = canFindStartedFrom puzzle s fuel i j (fst t)"
proof (induction fuel arbitrary: i j t)
  case 0
  show ?case by (simp add: forget_def)
next
  case (Suc fuel)
  let ?L = "canFindLogged puzzle s fuel" and ?C = "canFindStartedFrom puzzle s fuel"
  have right: "forget (or_else (guarded (unvisited (fst t4) i (j + 1)) (?L i (j + 1)) t4)
                   (\<lambda>t5. Some (False, unmark_logged i j t5)))
             = or_else (guarded (unvisited (fst t4) i (j + 1)) (?C i (j + 1)) (fst t4))
                   (\<lambda>st5. Some (False, unmark i j st5))" for t4
    by (rule forget_or_else, rule forget_guarded, rule Suc.IH)
       (simp add: forget_def fst_unmark_logged)
  have left: "forget (or_else (guarded (unvisited (fst t3) i (j - 1)) (?L i (j - 1)) t3) (\<lambda>t4.
                 or_else (guarded (unvisited (fst t4) i (j + 1)) (?L i (j + 1)) t4)
                   (\<lambda>t5. Some (False, unmark_logged i j t5))))
             = or_else (guarded (unvisited (fst t3) i (j - 1)) (?C i (j - 1)) (fst t3)) (\<lambda>st4.
                 or_else (guarded (unvisited st4 i (j + 1)) (?C i (j + 1)) st4)
                   (\<lambda>st5. Some (False, unmark i j st5)))" for t3
    by (rule forget_or_else, rule forget_guarded, rule Suc.IH, rule right)
  have down: "forget (or_else (guarded (row_exists puzzle (i + 1) \<and> unvisited (fst t2) (i + 1) j)
                                 (?L (i + 1) j) t2) (\<lambda>t3.
                 or_else (guarded (unvisited (fst t3) i (j - 1)) (?L i (j - 1)) t3) (\<lambda>t4.
                 or_else (guarded (unvisited (fst t4) i (j + 1)) (?L i (j + 1)) t4)
                   (\<lambda>t5. Some (False, unmark_logged i j t5)))))
             = or_else (guarded (row_exists puzzle (i + 1) \<and> unvisited (fst t2) (i + 1) j)
                                 (?C (i + 1) j) (fst t2)) (\<lambda>st3.
                 or_else (guarded (unvisited st3 i (j - 1)) (?C i (j - 1)) st3) (\<lambda>st4.
                 or_else (guarded (unvisited st4 i (j + 1)) (?C i (j + 1)) st4)
                   (\<lambda>st5. Some (False, unmark i j st5))))" for t2
    by (rule forget_or_else, rule forget_guarded, rule Suc.IH, rule left)
  have up: "forget (or_else (guarded (row_exists puzzle (i - 1) \<and> unvisited (fst t1) (i - 1) j)
                                 (?L (i - 1) j) t1) (\<lambda>t2.
                 or_else (guarded (row_exists puzzle (i + 1) \<and> unvisited (fst t2) (i + 1) j)
                                 (?L (i + 1) j) t2) (\<lambda>t3.
                 or_else (guarded (unvisited (fst t3) i (j - 1)) (?L i (j - 1)) t3) (\<lambda>t4.
                 or_else (guarded (unvisited (fst t4) i (j + 1)) (?L i (j + 1)) t4)
                   (\<lambda>t5. Some (False, unmark_logged i j t5))))))
             = or_else (guarded (row_exists puzzle (i - 1) \<and> unvisited (fst t1) (i - 1) j)
                                 (?C (i - 1) j) (fst t1)) (\<lambda>st2.
                 or_else (guarded (row_exists puzzle (i + 1) \<and> unvisited st2 (i + 1) j)
                                 (?C (i + 1) j) st2) (\<lambda>st3.
                 or_else (guarded (unvisited st3 i (j - 1)) (?C i (j - 1)) st3) (\<lambda>st4.
                 or_else (guarded (unvisited st4 i (j + 1)) (?C i (j + 1)) st4)
                   (\<lambda>st5. Some (False, unmark i j st5)))))" for t1
    by (rule forget_or_else, rule forget_guarded, rule Suc.IH, rule down)
  have fst_m: "mark i j (fst t) = fst (mark_logged i j t)" by (simp add: fst_mark_logged)
  show ?case
    unfolding canFindLogged.simps canFindStartedFrom.simps Let_def fst_m
    by (simp add: up) (simp add: forget_def)
qed

lemma all_directions: "set [Up, Down, Left, Right] = UNIV"
proof -
  have "d \<in> set [Up, Down, Left, Right]" for d by (cases d) simp_all
  then show ?thesis by blast
qed

lemmas canFindStartedFrom_sound =
  canFindOrdered_sound [OF all_directions, folded canFindStartedFrom_ordered]

lemma log_ok_count: "log_ok h t \<Longrightarrow> count_ok (fst t)"
  by (simp add: log_ok_def)

lemma attempt_rule:
  assumes run: "or_else (guarded g call t) rest = Some (b, t')"
    and inv: "I t"
    and call: "\<And>b' t''. g \<Longrightarrow> call t = Some (b', t'') \<Longrightarrow> (if b' then R t'' else I t'')"
    and hit: "b \<Longrightarrow> R t' \<Longrightarrow> P"
    and rest: "\<And>t2. I t2 \<Longrightarrow> rest t2 = Some (b, t') \<Longrightarrow> P"
  shows "P"
proof -
  from run consider
      (hit) "guarded g call t = Some (True, t')" "b"
    | (miss) t2 where "guarded g call t = Some (False, t2)" "rest t2 = Some (b, t')"
    unfolding or_else_Some by blast
  then show ?thesis
  proof cases
    case hit
    then have "g" "call t = Some (True, t')" by (auto simp: guarded_def split: if_splits)
    from call [OF this] hit(2) show ?thesis by (auto intro: assms(4))
  next
    case miss
    have "I t2"
    proof (cases g)
      case True
      with miss(1) have "call t = Some (False, t2)" by (simp add: guarded_def)
      from call [OF True this] show ?thesis by simp
    next
      case False
      with miss(1) inv show ?thesis by (simp add: guarded_def)
    qed
    then show ?thesis using miss(2) by (rule rest)
  qed
qed

lemma canFindLogged_inv:
  "shaped puzzle (fst t) \<Longrightarrow> 0 \<le> index (fst t) \<Longrightarrow> index (fst t) < int (length s) \<Longrightarrow>
   unvisited (fst t) i j \<Longrightarrow> log_ok h t \<Longrightarrow>
   canFindLogged puzzle s fuel i j t = Some (b, t') \<Longrightarrow> log_ok h t'"
proof (induction fuel arbitrary: i j t b t')
  case 0
  then show ?case by simp
next
  case (Suc fuel)
  let ?st = "fst t"
  let ?st1 = "mark i j ?st"
  let ?t1 = "mark_logged i j t"
  show ?case
  proof (cases "matches puzzle s i j ?st")
    case False
    with Suc.prems show ?thesis by simp
  next
    case True
    with Suc.prems(2,3) have cc: "cell_char puzzle (i, j) \<noteq> None"
      by (simp add: matches_iff)
    have sh1: "shaped puzzle ?st1" using Suc.prems(1) cc by (rule shaped_mark)
    have ok: "count_ok ?st" using Suc.prems(5) by (rule log_ok_count)
    have ok1: "count_ok ?st1" using Suc.prems(1) ok Suc.prems(4) by (rule count_ok_mark)
    have fst1: "fst ?t1 = ?st1" by (rule fst_mark_logged)
    have log1: "log_ok h ?t1"
      using Suc.prems(5) ok1 by (rule log_ok_mark)
    show ?thesis
    proof (cases "index ?st1 = int (length s)")
      case True
      with \<open>matches puzzle s i j ?st\<close> Suc.prems(6) have "t' = ?t1"
        by (simp add: Let_def fst1)
      with log1 show ?thesis by simp
    next
      case False
      with Suc.prems(2,3) have in1: "0 \<le> index ?st1" "index ?st1 < int (length s)"
        by (simp_all add: mark_def)
      let ?I = "\<lambda>tk. fst tk = ?st1 \<and> log_ok h tk"
      let ?R = "log_ok h"
      have call: "if b' then ?R t'' else ?I t''"
        if "?I tk" "unvisited (fst tk) i' j'"
          "canFindLogged puzzle s fuel i' j' tk = Some (b', t'')" for tk i' j' b' t''
      proof -
        from that(1) have tk: "fst tk = ?st1" "log_ok h tk" by simp_all
        have pre: "shaped puzzle (fst tk)" "0 \<le> index (fst tk)" "index (fst tk) < int (length s)"
          using sh1 in1 by (simp_all add: tk(1))
        from Suc.IH [OF pre that(2) tk(2) that(3)]
        have post: "?R t''" .
        from that(3) have "forget (canFindLogged puzzle s fuel i' j' tk) = Some (b', fst t'')"
          by (simp add: forget_def)
        then have "canFindStartedFrom puzzle s fuel i' j' (fst tk) = Some (b', fst t'')"
          by (simp add: forget_canFindLogged)
        from canFindStartedFrom_sound [OF pre that(2) this]
        have "\<not> b' \<longrightarrow> fst t'' = ?st1" by (simp add: tk(1))
        with post show ?thesis by simp
      qed
      from False \<open>matches puzzle s i j ?st\<close> Suc.prems(6)
      have run: "or_else (guarded (row_exists puzzle (i - 1) \<and> unvisited (fst ?t1) (i - 1) j)
                      (canFindLogged puzzle s fuel (i - 1) j) ?t1) (\<lambda>t2.
           or_else (guarded (row_exists puzzle (i + 1) \<and> unvisited (fst t2) (i + 1) j)
                      (canFindLogged puzzle s fuel (i + 1) j) t2) (\<lambda>t3.
           or_else (guarded (unvisited (fst t3) i (j - 1))
                      (canFindLogged puzzle s fuel i (j - 1)) t3) (\<lambda>t4.
           or_else (guarded (unvisited (fst t4) i (j + 1))
                      (canFindLogged puzzle s fuel i (j + 1)) t4) (\<lambda>t5.
           Some (False, unmark_logged i j t5))))) = Some (b, t')"
        by (simp add: Let_def fst1)
      have undo: "unmark i j ?st1 = ?st"
        using Suc.prems(1) cc Suc.prems(4) by (rule unmark_mark)
      from run show ?thesis
      proof (rule attempt_rule [where I = ?I and R = ?R])
        show "?I ?t1" using fst1 log1 by simp
      next
        fix t2 assume "?I t2"
        assume "or_else (guarded (row_exists puzzle (i + 1) \<and> unvisited (fst t2) (i + 1) j)
                      (canFindLogged puzzle s fuel (i + 1) j) t2) (\<lambda>t3.
           or_else (guarded (unvisited (fst t3) i (j - 1))
                      (canFindLogged puzzle s fuel i (j - 1)) t3) (\<lambda>t4.
           or_else (guarded (unvisited (fst t4) i (j + 1))
                      (canFindLogged puzzle s fuel i (j + 1)) t4) (\<lambda>t5.
           Some (False, unmark_logged i j t5)))) = Some (b, t')"
        then show ?thesis
        proof (rule attempt_rule [where I = ?I and R = ?R])
          show "?I t2" by fact
        next
          fix t3 assume "?I t3"
          assume "or_else (guarded (unvisited (fst t3) i (j - 1))
                      (canFindLogged puzzle s fuel i (j - 1)) t3) (\<lambda>t4.
           or_else (guarded (unvisited (fst t4) i (j + 1))
                      (canFindLogged puzzle s fuel i (j + 1)) t4) (\<lambda>t5.
           Some (False, unmark_logged i j t5))) = Some (b, t')"
          then show ?thesis
          proof (rule attempt_rule [where I = ?I and R = ?R])
            show "?I t3" by fact
          next
            fix t4 assume "?I t4"
            assume "or_else (guarded (unvisited (fst t4) i (j + 1))
                      (canFindLogged puzzle s fuel i (j + 1)) t4) (\<lambda>t5.
                      Some (False, unmark_logged i j t5)) = Some (b, t')"
            then show ?thesis
            proof (rule attempt_rule [where I = ?I and R = ?R])
              show "?I t4" by fact
            next
              fix t5 assume t5: "?I t5"
              assume "Some (False, unmark_logged i j t5) = Some (b, t')"
              then have "t' = unmark_logged i j t5" by simp
              moreover from t5 undo ok have "count_ok (unmark i j (fst t5))" by simp
              ultimately show ?thesis using t5 by (simp add: log_ok_unmark)
            next
              fix b' t''
              assume "unvisited (fst t4) i (j + 1)"
                "canFindLogged puzzle s fuel i (j + 1) t4 = Some (b', t'')"
              with \<open>?I t4\<close> show "if b' then ?R t'' else ?I t''" by (rule call)
            qed
          next
            fix b' t''
            assume "unvisited (fst t3) i (j - 1)"
              "canFindLogged puzzle s fuel i (j - 1) t3 = Some (b', t'')"
            with \<open>?I t3\<close> show "if b' then ?R t'' else ?I t''" by (rule call)
          qed
        next
          fix b' t''
          assume "row_exists puzzle (i + 1) \<and> unvisited (fst t2) (i + 1) j"
            "canFindLogged puzzle s fuel (i + 1) j t2 = Some (b', t'')"
          with \<open>?I t2\<close> show "if b' then ?R t'' else ?I t''" by (intro call) simp_all
        qed
      next
        fix b' t''
        assume "row_exists puzzle (i - 1) \<and> unvisited (fst ?t1) (i - 1) j"
          "canFindLogged puzzle s fuel (i - 1) j ?t1 = Some (b', t'')"
        moreover have "?I ?t1" using fst1 log1 by simp
        ultimately show "if b' then ?R t'' else ?I t''" by (intro call) simp_all
      qed
    qed
  qed
qed

lemma for_first_rule:
  assumes "for_first xs body t = Some (b, t')" "I t"
    and "\<And>x tk b' t''. x \<in> set xs \<Longrightarrow> I tk \<Longrightarrow> body x tk = Some (b', t'') \<Longrightarrow>
           (if b' then R t'' else I t'')"
  shows "if b then R t' else I t'"
  using assms
proof (induction xs arbitrary: t)
  case Nil
  then show ?case by simp
next
  case (Cons x xs)
  have x_in: "x \<in> set (x # xs)" by simp
  from Cons.prems(1) have "or_else (body x t) (for_first xs body) = Some (b, t')" by simp
  then consider
      (hit) "body x t = Some (True, t')" "b"
    | (miss) t2 where "body x t = Some (False, t2)" "for_first xs body t2 = Some (b, t')"
    unfolding or_else_Some by blast
  then show ?case
  proof cases
    case hit
    from Cons.prems(3) [OF x_in Cons.prems(2) hit(1)] hit(2) show ?thesis by simp
  next
    case miss
    from Cons.prems(3) [OF x_in Cons.prems(2) miss(1)] have "I t2" by simp
    with miss(2) show ?thesis
    proof (rule Cons.IH)
      fix y tk b' t''
      assume "y \<in> set xs" "I tk" "body y tk = Some (b', t'')"
      then show "if b' then R t'' else I t''"
        by (intro Cons.prems(3) [of y tk]) simp_all
    qed
  qed
qed

lemma forget_for_first:
  assumes "\<And>x t. forget (body x t) = body' x (fst t)"
  shows "forget (for_first xs body t) = for_first xs body' (fst t)"
proof (induction xs arbitrary: t)
  case Nil
  show ?case by (simp add: forget_def)
next
  case (Cons x xs)
  show ?case
    unfolding for_first.simps by (rule forget_or_else) (rule assms, rule Cons.IH)
qed

lemma forget_searchLogged: "forget (searchLogged fuel puzzle s) = search fuel puzzle s"
proof -
  let ?row = "\<lambda>i. for_first [0 ..< length (puzzle ! i)]
                 (\<lambda>j. canFindStartedFrom puzzle s fuel (int i) (int j))"
  have row: "forget (for_first [0 ..< length (puzzle ! i)]
                      (\<lambda>j. canFindLogged puzzle s fuel (int i) (int j)) t) = ?row i (fst t)" for i t
    by (rule forget_for_first) (rule forget_canFindLogged)
  have "forget (for_first [0 ..< length puzzle]
                  (\<lambda>i. for_first [0 ..< length (puzzle ! i)]
                     (\<lambda>j. canFindLogged puzzle s fuel (int i) (int j)))
                  (init_state puzzle, [(Start, init_state puzzle)]))
        = for_first [0 ..< length puzzle] ?row
            (fst (init_state puzzle, [(Start, init_state puzzle)]))"
    by (rule forget_for_first) (rule row)
  then show ?thesis by (simp add: searchLogged_def search_def)
qed

lemma searchLogged_inv:
  assumes "searchLogged fuel puzzle s = Some (b, t')"
  shows "log_ok (init_state puzzle) t'"
proof -
  let ?init = "init_state puzzle"
  let ?ok = "log_ok ?init"
  let ?I = "\<lambda>tk. fst tk = ?init \<and> ?ok tk"
  have call: "if b' then ?ok t'' else ?I t''"
    if "i < length puzzle" "j < length (puzzle ! i)" "?I tk"
      "canFindLogged puzzle s fuel (int i) (int j) tk = Some (b', t'')" for i j tk b' t''
  proof (cases "s = []")
    case True
    from that(4) obtain n where "fuel = Suc n" by (cases fuel) auto
    with True that show ?thesis
      by (simp add: matches_def js_nth_def init_index)
  next
    case False
    from that(3) have tk: "fst tk = ?init" "?ok tk" by simp_all
    have pre: "shaped puzzle (fst tk)" "0 \<le> index (fst tk)" "index (fst tk) < int (length s)"
      "unvisited (fst tk) (int i) (int j)"
      using False by (simp_all add: tk(1) init_shaped init_index init_unvisited)
    from canFindLogged_inv [OF pre tk(2) that(4)] have post: "?ok t''" .
    from that(4) have "forget (canFindLogged puzzle s fuel (int i) (int j) tk) = Some (b', fst t'')"
      by (simp add: forget_def)
    then have "canFindStartedFrom puzzle s fuel (int i) (int j) (fst tk) = Some (b', fst t'')"
      by (simp add: forget_canFindLogged)
    from canFindStartedFrom_sound [OF pre this]
    have "\<not> b' \<longrightarrow> fst t'' = ?init" by (simp add: tk(1))
    with post show ?thesis by simp
  qed
  have start: "?I (?init, [(Start, ?init)])"
    using count_ok_init [of puzzle] by (simp add: log_ok_def entry_ok_def count_ok_def)
  have "if b then ?ok t' else ?I t'"
    using assms [unfolded searchLogged_def] start
  proof (rule for_first_rule)
    fix i tk b' t''
    assume i: "i \<in> set [0 ..< length puzzle]" and "?I tk"
      and "for_first [0 ..< length (puzzle ! i)]
             (\<lambda>j. canFindLogged puzzle s fuel (int i) (int j)) tk = Some (b', t'')"
    from this(3,2) show "if b' then ?ok t'' else ?I t''"
    proof (rule for_first_rule)
      fix j tk b' t''
      assume "j \<in> set [0 ..< length (puzzle ! i)]" "?I tk"
        "canFindLogged puzzle s fuel (int i) (int j) tk = Some (b', t'')"
      with i show "if b' then ?ok t'' else ?I t''"
        by (intro call [of i j tk]) simp_all
    qed
  qed
  then show ?thesis by (simp split: if_splits)
qed

subsection \<open>Consequences for the search of the source\<close>

lemma search_ordered: "search fuel puzzle s = searchOrdered [Up, Down, Left, Right] fuel puzzle s"
proof -
  have "canFindStartedFrom puzzle s fuel = canFindOrdered [Up, Down, Left, Right] puzzle s fuel"
    by (intro ext) (rule canFindStartedFrom_ordered)
  then show ?thesis by (simp add: search_def searchOrdered_def)
qed

lemmas search_run = searchOrdered_run [OF all_directions, folded search_ordered]

lemma findStringOrdered_run:
  "set dirs = UNIV \<Longrightarrow> length s < fuel \<Longrightarrow> findStringOrdered dirs fuel puzzle s = Some (has_snake puzzle s)"
  using searchOrdered_run [of dirs s fuel puzzle] by (auto simp: findStringOrdered_def)

lemma findString_run:
  "length s < fuel \<Longrightarrow> findStringInSnakingPuzzle fuel puzzle s = Some (has_snake puzzle s)"
  using search_run [of s fuel puzzle] by (auto simp: findStringInSnakingPuzzle_def)

text \<open>
  A snake reads symbols of the puzzle only; a row read rightwards and a column read
  downwards are snakes.
\<close>

lemma snake_symbols:
  "snake_from puzzle avoid c w \<Longrightarrow> x \<in> set w \<Longrightarrow> \<exists>row\<in>set puzzle. x \<in> set row"
proof (induction w arbitrary: c avoid)
  case Nil
  then show ?case by simp
next
  case (Cons y w)
  show ?case
  proof (cases "x = y")
    case True
    from Cons.prems(1) have "cell_char puzzle c = Some y" by simp
    from cell_char_Some [OF this] obtain i j
      where "i < length puzzle" "j < length (puzzle ! i)" "puzzle ! i ! j = y" by blast
    then have "puzzle ! i \<in> set puzzle" "y \<in> set (puzzle ! i)" by (auto simp: in_set_conv_nth)
    with True show ?thesis by blast
  next
    case False
    with Cons.prems(2) have x: "x \<in> set w" by simp
    then have "w \<noteq> []" by auto
    with Cons.prems(1) obtain d where "snake_from puzzle (insert c avoid) (neighbour d c) w"
      by auto
    from Cons.IH [OF this x] show ?thesis .
  qed
qed

lemma snake_row:
  assumes i: "i < length puzzle"
  shows "j < length (puzzle ! i) \<Longrightarrow> \<forall>j'\<ge>j. (int i, int j') \<notin> avoid \<Longrightarrow>
         snake_from puzzle avoid (int i, int j) (drop j (puzzle ! i))"
proof (induction "length (puzzle ! i) - j" arbitrary: j avoid)
  case 0
  then show ?case by simp
next
  case (Suc n)
  let ?row = "puzzle ! i"
  from Suc.prems(1) have word: "drop j ?row = ?row ! j # drop (Suc j) ?row"
    by (simp add: Cons_nth_drop_Suc)
  have here: "cell_char puzzle (int i, int j) = Some (?row ! j)"
    using i Suc.prems(1) by (rule cell_char_nat)
  have free: "(int i, int j) \<notin> avoid" using Suc.prems(2) by blast
  show ?case
  proof (cases "Suc j < length ?row")
    case False
    then have "drop (Suc j) ?row = []" by simp
    with here free show ?thesis by (simp add: word)
  next
    case True
    have "snake_from puzzle (insert (int i, int j) avoid) (int i, int (Suc j)) (drop (Suc j) ?row)"
    proof (rule Suc.hyps(1))
      show "n = length ?row - Suc j" using Suc.hyps(2) by simp
      show "Suc j < length ?row" by fact
      show "\<forall>j'\<ge>Suc j. (int i, int j') \<notin> insert (int i, int j) avoid"
        using Suc.prems(2) by auto
    qed
    then have "snake_from puzzle (insert (int i, int j) avoid) (neighbour Right (int i, int j))
                 (drop (Suc j) ?row)"
      by (simp add: add.commute)
    then have "\<exists>d. snake_from puzzle (insert (int i, int j) avoid) (neighbour d (int i, int j))
                 (drop (Suc j) ?row)" ..
    with here free show ?thesis by (simp add: word)
  qed
qed

lemma snake_column:
  assumes col: "\<forall>row\<in>set puzzle. j < length row"
  shows "i < length puzzle \<Longrightarrow> \<forall>i'\<ge>i. (int i', int j) \<notin> avoid \<Longrightarrow>
         snake_from puzzle avoid (int i, int j) (drop i (map (\<lambda>row. row ! j) puzzle))"
proof (induction "length puzzle - i" arbitrary: i avoid)
  case 0
  then show ?case by simp
next
  case (Suc n)
  let ?col = "map (\<lambda>row. row ! j) puzzle"
  from Suc.prems(1) have word: "drop i ?col = puzzle ! i ! j # drop (Suc i) ?col"
    by (simp add: Cons_nth_drop_Suc [symmetric])
  from Suc.prems(1) col have "j < length (puzzle ! i)" by simp
  with Suc.prems(1) have here: "cell_char puzzle (int i, int j) = Some (puzzle ! i ! j)"
    by (rule cell_char_nat)
  have free: "(int i, int j) \<notin> avoid" using Suc.prems(2) by blast
  show ?case
  proof (cases "Suc i < length puzzle")
    case False
    then have "drop (Suc i) ?col = []" by simp
    with here free show ?thesis by (simp add: word)
  next
    case True
    have "snake_from puzzle (insert (int i, int j) avoid) (int (Suc i), int j) (drop (Suc i) ?col)"
    proof (rule Suc.hyps(1))
      show "n = length puzzle - Suc i" using Suc.hyps(2) by simp
      show "Suc i < length puzzle" by fact
      show "\<forall>i'\<ge>Suc i. (int i', int j) \<notin> insert (int i, int j) avoid"
        using Suc.prems(2) by auto
    qed
    then have "snake_from puzzle (insert (int i, int j) avoid) (neighbour Down (int i, int j))
                 (drop (Suc i) ?col)"
      by (simp add: add.commute)
    then have "\<exists>d. snake_from puzzle (insert (int i, int j) avoid) (neighbour d (int i, int j))
                 (drop (Suc i) ?col)" ..
    with here free show ?thesis by (simp add: word)
  qed
qed

lemma has_snake_row:
  assumes "target \<in> set puzzle" "target \<noteq> []"
  shows "has_snake puzzle target"
proof -
  from assms(1) obtain i where i: "i < length puzzle" "puzzle ! i = target"
    by (auto simp: in_set_conv_nth)
  with assms(2) have "0 < length (puzzle ! i)" by simp
  from snake_row [OF i(1) this, of "{}"] i(2) show ?thesis
    by (auto simp: has_snake_def)
qed

lemma has_snake_column:
  assumes "\<forall>row\<in>set puzzle. j < length row" "target = map (\<lambda>row. row ! j) puzzle" "target \<noteq> []"
  shows "has_snake puzzle target"
proof -
  from assms(2,3) have "0 < length puzzle" by auto
  from snake_column [OF assms(1) this, of "{}"] assms(2) show ?thesis
    by (auto simp: has_snake_def)
qed

lemma searchLogged_total:
  assumes "search fuel puzzle s = Some (b, st)"
  shows "\<exists>log. searchLogged fuel puzzle s = Some (b, st, log)"
  using assms forget_searchLogged [of fuel puzzle s]
  by (auto simp: forget_def)

lemmas search_path = searchOrdered_path [OF all_directions, folded search_ordered]

text \<open>
  A call at a cell of the puzzle with the index outside the string fails at line 294;
  this is every call made for the empty string.
\<close>

lemma canFindStartedFrom_outside:
  assumes "cell_char puzzle (i, j) \<noteq> None" "\<not> (0 \<le> index st \<and> index st < int (length s))"
    "canFindStartedFrom puzzle s fuel i j st = Some (b, st')"
  shows "\<not> b \<and> st' = st"
proof -
  from assms(3) obtain n where "fuel = Suc n" by (cases fuel) auto
  moreover from assms(1,2) have "\<not> matches puzzle s i j st"
    by (auto simp: matches_def cell_char_def js_nth_def split: option.splits)
  ultimately show ?thesis using assms(3) by simp
qed

section \<open>The claims\<close>

subsection \<open>getPermutations\<close>

text \<open>
  Claim C1: for every input of \<open>n\<close> distinct symbols, getPermutations yields exactly
  \<open>n!\<close> sequences, each a permutation of the input, no two equal.  This holds for
  every non-empty input of distinct code units that has as many code points as code
  units, given depth \<open>n\<close>.  It fails in two places.  At the empty input (\<open>n = 0\<close>, so
  \<open>n! = 1\<close>) the code yields nothing, whatever depth is allowed.  On a string with a
  surrogate pair \<open>k\<close> starts above the length of the array: for the string of the two
  units \<open>D83D DE00\<close> (one code point) the code yields the same string twice.
\<close>

theorem getPermutations_correct_unless_empty_or_paired:
  "(chars \<noteq> [] \<and> distinct chars \<and> length (spread chars) = length chars \<and>
    length chars \<le> fuel \<longrightarrow>
      (\<exists>out. getPermutations fuel chars = Some out \<and> length out = fact (length chars) \<and>
         (\<forall>p\<in>set out. mset p = mset chars) \<and> distinct out)) \<and>
   getPermutations fuel [] = None \<and>
   getPermutations (Suc (Suc fuel)) [0xD83D, 0xDE00]
     = Some [[0xD83D, 0xDE00], [0xD83D, 0xDE00]]"
proof (intro conjI impI)
  assume "chars \<noteq> [] \<and> distinct chars \<and> length (spread chars) = length chars \<and>
    length chars \<le> fuel"
  then show "\<exists>out. getPermutations fuel chars = Some out \<and> length out = fact (length chars) \<and>
         (\<forall>p\<in>set out. mset p = mset chars) \<and> distinct out"
    using getPermutations_nonempty [of chars fuel] by simp
next
  show "getPermutations fuel [] = None"
    by (simp add: getPermutations_def generate_nonpositive)
next
  have "high_surrogate 0xD83D" "low_surrogate 0xDE00"
    by (simp_all add: high_surrogate_def low_surrogate_def)
  then show "getPermutations (Suc (Suc fuel)) [0xD83D, 0xDE00]
               = Some [[0xD83D, 0xDE00], [0xD83D, 0xDE00]]"
    by (simp add: getPermutations_def swap_def arr_get_def arr_set_def join_def)
qed

theorem getPermutations_correct_unless_empty_or_paired_witness:
  "[0x61, 0x62, 0x63] \<noteq> ([] :: jsstring) \<and> distinct [0x61, 0x62, 0x63 :: unit16] \<and>
   length (spread [0x61, 0x62, 0x63]) = length [0x61, 0x62, 0x63 :: unit16] \<and>
   length [0x61, 0x62, 0x63 :: unit16] \<le> (3::nat) \<and>
   (\<exists>out. getPermutations 3 [0x61, 0x62, 0x63] = Some out \<and> length out = 6 \<and>
      mset (hd out) = mset [0x61, 0x62, 0x63] \<and> distinct out)"
proof -
  let ?abc = "[0x61, 0x62, 0x63] :: jsstring"
  have pre: "?abc \<noteq> [] \<and> distinct ?abc \<and> length (spread ?abc) = length ?abc \<and>
             length ?abc \<le> (3::nat)"
    by (simp add: high_surrogate_def low_surrogate_def)
  with getPermutations_correct_unless_empty_or_paired [of ?abc 3] obtain out
    where out: "getPermutations 3 ?abc = Some out" "length out = fact (length ?abc)"
      "\<forall>p\<in>set out. mset p = mset ?abc" "distinct out"
    by blast
  have "fact (length ?abc) = (6::nat)" by code_simp
  with out(2) have six: "length out = 6" by simp
  then have "out \<noteq> []" by auto
  with out(3) have "mset (hd out) = mset ?abc" by simp
  with pre out(1,4) six show ?thesis by blast
qed

text \<open>
  Claim C3: getPermutations on the empty input terminates and yields exactly one result,
  the empty sequence.  In the code \<open>generate(0, [])\<close> calls \<open>generate(-1, [])\<close> before
  anything else, and so on downwards: the call does not return within any depth.
\<close>

theorem getPermutations_empty_never_returns: "getPermutations fuel [] = None"
  by (simp add: getPermutations_def generate_nonpositive)

text \<open>
  Claim C6: every call of findStringInSnakingPuzzle and of getPermutations runs to
  completion on every valid input.  The search returns for every grid and string, given
  depth beyond the length of the string, and the generator returns a finite list for
  every non-empty input, given depth the length of the input.  On the empty input the
  closure \<open>generate\<close> is entered with \<open>k = 0\<close> and does not return within any depth.
\<close>

theorem runs_to_completion_unless_empty:
  "(length s < fuel \<longrightarrow> findStringInSnakingPuzzle fuel puzzle s \<noteq> None) \<and>
   (chars \<noteq> [] \<and> length chars \<le> fuel \<longrightarrow> getPermutations fuel chars \<noteq> None) \<and>
   generate fuel 0 (arr, out) = None"
  using findString_run [of s fuel puzzle] getPermutations_returns [of chars fuel]
  by (auto simp: generate_nonpositive)

theorem runs_to_completion_unless_empty_witness:
  "length ''AB'' < (3::nat) \<and> findStringInSnakingPuzzle 3 [''AB''] ''AB'' \<noteq> None \<and>
   [0x61, 0x62, 0x63] \<noteq> ([] :: jsstring) \<and> length [0x61, 0x62, 0x63 :: unit16] \<le> (3::nat) \<and>
   getPermutations 3 [0x61, 0x62, 0x63] \<noteq> None"
  using runs_to_completion_unless_empty [of "''AB''" 3 "[''AB'']" "[0x61, 0x62, 0x63]"] by simp

text \<open>
  Claim C10: for every non-empty input the first sequence yielded by getPermutations is
  the input itself.  Depth \<open>length chars\<close> is enough for the call to return.
\<close>

theorem first_permutation_is_input:
  "chars \<noteq> [] \<Longrightarrow> length chars \<le> fuel \<Longrightarrow>
   \<exists>rest. getPermutations fuel chars = Some (chars # rest)"
proof -
  assume "chars \<noteq> []" "length chars \<le> fuel"
  then have "1 \<le> int (length chars)" "int (length chars) \<le> int fuel"
    by (simp_all add: Suc_le_eq)
  from generate_returns [OF this, of "map Some (spread chars)" "[]"]
  show ?thesis by (auto simp: getPermutations_def join_spread)
qed

theorem first_permutation_is_input_witness:
  "[0x61, 0x62, 0x63] \<noteq> ([] :: jsstring) \<and> length [0x61, 0x62, 0x63 :: unit16] \<le> (3::nat) \<and>
   (\<exists>rest. getPermutations 3 [0x61, 0x62, 0x63] = Some ([0x61, 0x62, 0x63] # rest))"
  using first_permutation_is_input [of "[0x61, 0x62, 0x63]" 3] by simp

subsection \<open>findStringInSnakingPuzzle\<close>

text \<open>
  Claim C2: for every grid, the search for the empty string returns true.  In the code
  \<open>searchStr[0]\<close> is \<open>undefined\<close> and no cell of the puzzle is, so no start matches and
  the result is false for every grid.
\<close>

theorem empty_target_counterexample: "findStringInSnakingPuzzle 1 [''A''] [] \<noteq> Some True"
  by code_simp

theorem empty_target_not_found: "findStringInSnakingPuzzle (Suc fuel) puzzle [] = Some False"
proof -
  have "\<not> has_snake puzzle []" by (simp add: has_snake_def)
  with findString_run [of "[]" "Suc fuel" puzzle] show ?thesis by simp
qed

text \<open>
  Claim C4: the mask is unwound on every exit path, that of success included: a call
  of canFindStartedFrom that returns false leaves the mask as it was on entry, and the
  mask is all-false once the search returns.  The first half holds, for the index as
  well, in every state a call is made in: the mask has the shape of the puzzle, the cell
  entered is not marked, and the index is inside the string (every call of lines
  298-309) or the cell is one of the puzzle (every call of line 319, the empty string
  included).  A search that returns false ends in the initial state, with no cell
  marked.  A search that returns true returns from lines 297-309 without unmarking: the
  cells marked at the end are exactly the cells of a path that reads the string, so as
  many as the string is long.
\<close>

theorem success_keeps_marks_counterexample:
  "search 2 [''A''] ''A'' \<noteq> None \<and> fst (the (search 2 [''A''] ''A'')) \<and>
   visited (snd (the (search 2 [''A''] ''A''))) (0, 0) = Some True \<and>
   visited (init_state [''A'']) (0, 0) = Some False"
  by code_simp

theorem failed_search_restores_state:
  "(shaped puzzle st \<and> unvisited st i j \<and>
    (0 \<le> index st \<and> index st < int (length s) \<or> cell_char puzzle (i, j) \<noteq> None) \<and>
    canFindStartedFrom puzzle s fuel i j st = Some (False, st') \<longrightarrow> st' = st) \<and>
   (length s < fuel \<and> search fuel puzzle s = Some (False, st') \<longrightarrow>
      st' = init_state puzzle \<and> true_cells st' = {}) \<and>
   (length s < fuel \<and> search fuel puzzle s = Some (True, st') \<longrightarrow>
      (\<exists>p. snake_path puzzle {} p s \<and> true_cells st' = set p) \<and>
      card (true_cells st') = length s)"
proof (intro conjI impI)
  assume a: "shaped puzzle st \<and> unvisited st i j \<and>
    (0 \<le> index st \<and> index st < int (length s) \<or> cell_char puzzle (i, j) \<noteq> None) \<and>
    canFindStartedFrom puzzle s fuel i j st = Some (False, st')"
  show "st' = st"
  proof (cases "0 \<le> index st \<and> index st < int (length s)")
    case True
    with a show ?thesis using canFindStartedFrom_sound [of puzzle st s i j fuel False st'] by simp
  next
    case False
    with a show ?thesis using canFindStartedFrom_outside [of puzzle i j st s fuel False st'] by simp
  qed
next
  assume "length s < fuel \<and> search fuel puzzle s = Some (False, st')"
  then show "st' = init_state puzzle" using search_run [of s fuel puzzle] by (auto split: if_splits)
  then show "true_cells st' = {}" by (simp add: init_true_cells)
next
  assume "length s < fuel \<and> search fuel puzzle s = Some (True, st')"
  then obtain p where p: "snake_path puzzle {} p s" "true_cells st' = set p"
    using search_path by blast
  then show "\<exists>p. snake_path puzzle {} p s \<and> true_cells st' = set p" by blast
  from p show "card (true_cells st') = length s"
    by (simp add: snake_path_def distinct_card)
qed

theorem failed_search_restores_state_witness:
  "shaped [''AB''] (init_state [''AB'']) \<and> unvisited (init_state [''AB'']) 0 0 \<and>
   (0::int) \<le> index (init_state [''AB'']) \<and> index (init_state [''AB'']) < int (length ''AC'') \<and>
   cell_char [''AB''] (0, 0) \<noteq> None \<and>
   canFindStartedFrom [''AB''] ''AC'' 3 0 0 (init_state [''AB'']) = Some (False, init_state [''AB'']) \<and>
   canFindStartedFrom [''AB''] [] 3 0 0 (init_state [''AB'']) = Some (False, init_state [''AB'']) \<and>
   length ''AC'' < (3::nat) \<and>
   search 3 [''AB''] ''AC'' = Some (False, init_state [''AB'']) \<and>
   fst (the (search 3 [''AB''] ''AB'')) \<and>
   true_cells (snd (the (search 3 [''AB''] ''AB''))) = {(0, 0), (0, 1)} \<and>
   card (true_cells (snd (the (search 3 [''AB''] ''AB'')))) = length ''AB''"
proof -
  let ?P = "[''AB'']"
  let ?init = "init_state ?P"
  have pre: "shaped ?P ?init" "0 \<le> index ?init" "index ?init < int (length ''AC'')"
    "unvisited ?init 0 0" "length ''AC'' < (3::nat)" "length ''AB'' < (3::nat)"
    by (simp_all add: init_shaped init_index init_unvisited)
  have cc: "cell_char ?P (0, 0) \<noteq> None" "cell_char ?P (0, 0) = Some CHR ''A''"
    "cell_char ?P (0, 1) = Some CHR ''B''"
    by (simp_all add: cell_char_def js_nth_def)
  have "canFindStartedFrom ?P ''AC'' 3 0 0 ?init \<noteq> None"
    "\<not> fst (the (canFindStartedFrom ?P ''AC'' 3 0 0 ?init))"
    by code_simp+
  then obtain st1 where c: "canFindStartedFrom ?P ''AC'' 3 0 0 ?init = Some (False, st1)"
    by (cases "canFindStartedFrom ?P ''AC'' 3 0 0 ?init") auto
  have "canFindStartedFrom ?P [] 3 0 0 ?init \<noteq> None"
    "\<not> fst (the (canFindStartedFrom ?P [] 3 0 0 ?init))"
    by code_simp+
  then obtain st0 where e: "canFindStartedFrom ?P [] 3 0 0 ?init = Some (False, st0)"
    by (cases "canFindStartedFrom ?P [] 3 0 0 ?init") auto
  have "search 3 ?P ''AC'' \<noteq> None" "\<not> fst (the (search 3 ?P ''AC''))"
    by code_simp+
  then obtain st2 where s: "search 3 ?P ''AC'' = Some (False, st2)"
    by (cases "search 3 ?P ''AC''") auto
  have "search 3 ?P ''AB'' \<noteq> None" "fst (the (search 3 ?P ''AB''))"
    by code_simp+
  then obtain st3 where t: "search 3 ?P ''AB'' = Some (True, st3)"
    by (cases "search 3 ?P ''AB''") auto
  from failed_search_restores_state [of ?P ?init 0 0 "''AC''" 3 st1] pre c
  have "st1 = ?init" by blast
  moreover from failed_search_restores_state [of ?P ?init 0 0 "[]" 3 st0] pre(1,4) cc(1) e
  have "st0 = ?init" by blast
  moreover from failed_search_restores_state [of ?P ?init 0 0 "''AC''" 3 st2] pre s
  have "st2 = ?init" by blast
  moreover from failed_search_restores_state [of ?P ?init 0 0 "''AB''" 3 st3] pre t
  obtain p where p: "snake_path ?P {} p ''AB''" "true_cells st3 = set p"
    and n: "card (true_cells st3) = length ''AB''" by blast
  have "set p = {(0, 0), (0, 1)}"
  proof -
    from p(1) have len: "length p = 2"
      and sym: "\<And>k. k < length p \<Longrightarrow> cell_char ?P (p ! k) = Some (''AB'' ! k)"
      unfolding snake_path_def by simp_all
    from len obtain a b where ab: "p = [a, b]"
      by (cases p; cases "tl p") auto
    from sym [of 0] sym [of 1] have "cell_char ?P a = Some CHR ''A''" "cell_char ?P b = Some CHR ''B''"
      by (simp_all add: ab)
    then obtain i j i' j' where
      "a = (int i, int j)" "i < length ?P" "j < length (?P ! i)" "?P ! i ! j = CHR ''A''"
      "b = (int i', int j')" "i' < length ?P" "j' < length (?P ! i')" "?P ! i' ! j' = CHR ''B''"
      using cell_char_Some by meson
    then have "a = (0, 0)" "b = (0, 1)"
      by (auto simp: less_Suc_eq numeral_2_eq_2)
    then show ?thesis by (simp add: ab)
  qed
  ultimately show ?thesis using pre cc(1) c e s t p(2) n by simp
qed

text \<open>
  Claim C5: at every point of the exploration the number of true cells of the mask
  equals \<open>index\<close>.  The closure changes \<open>index\<close> and the mask in separate assignments,
  so this fails between the two: in the puzzle of the one row \<open>A\<close> searched for \<open>A\<close>,
  after \<open>index++\<close> of line 295 the index is 1 and no cell is marked.  What holds: with
  depth beyond the length of the string the instrumented search returns, it returns what
  the search returns, its log starts with the initial state and ends with the final
  state, and the number of true cells of a logged state is one less than its index
  after \<open>index++\<close> (line 295), one more than its index after \<open>index--\<close> (line 310),
  and its index at the start and after each assignment to the mask (lines 296 and 311).
\<close>

theorem count_differs_between_updates_counterexample:
  "searchLogged 2 [''A''] ''A'' \<noteq> None \<and>
   snd (snd (the (searchLogged 2 [''A''] ''A''))) ! 1
     = (Index_raised, (init_state [''A''])\<lparr>index := 1\<rparr>) \<and>
   int (card (true_cells ((init_state [''A''])\<lparr>index := 1\<rparr>)))
     \<noteq> index ((init_state [''A''])\<lparr>index := 1\<rparr>)"
  by (simp add: searchLogged_def mark_logged_def matches_def js_nth_def init_index
        numeral_2_eq_2 Let_def or_else_def true_cells_index init_true_cells)

theorem marked_cells_equal_index_after_mask_updates:
  "length s < fuel \<Longrightarrow>
   \<exists>b st log. searchLogged fuel puzzle s = Some (b, st, log) \<and>
     search fuel puzzle s = Some (b, st) \<and>
     log \<noteq> [] \<and> hd log = (Start, init_state puzzle) \<and> snd (last log) = st \<and>
     (\<forall>(pt, x)\<in>set log.
        int (card (true_cells x)) =
          (if pt = Index_raised then index x - 1
           else if pt = Index_lowered then index x + 1
           else index x))"
proof -
  assume "length s < fuel"
  from search_run [OF this, of puzzle] obtain b st
    where r: "search fuel puzzle s = Some (b, st)" by blast
  from searchLogged_total [OF r] obtain log
    where l: "searchLogged fuel puzzle s = Some (b, st, log)" ..
  then have ok: "log_ok (init_state puzzle) (st, log)" by (rule searchLogged_inv)
  have "int (card (true_cells x)) =
          (if pt = Index_raised then index x - 1
           else if pt = Index_lowered then index x + 1
           else index x)" if "(pt, x) \<in> set log" for pt x
  proof -
    from ok that have "entry_ok (pt, x)" by (auto simp: log_ok_def)
    then show ?thesis by (cases pt) (simp_all add: entry_ok_def)
  qed
  with ok r l show ?thesis by (auto simp: log_ok_def)
qed

theorem marked_cells_equal_index_after_mask_updates_witness:
  "length ''AC'' < (3::nat) \<and> searchLogged 3 [''AB''] ''AC'' \<noteq> None \<and>
   map fst (snd (snd (the (searchLogged 3 [''AB''] ''AC''))))
     = [Start, Index_raised, Marked, Index_lowered, Unmarked] \<and>
   map (\<lambda>(pt, x). index x) (snd (snd (the (searchLogged 3 [''AB''] ''AC''))))
     = [0, 1, 1, 0, 0] \<and>
   map (\<lambda>(pt, x). int (card (true_cells x))) (snd (snd (the (searchLogged 3 [''AB''] ''AC''))))
     = [0, 0, 1, 1, 0]"
proof -
  have len: "length ''AC'' < (3::nat)" by simp
  from marked_cells_equal_index_after_mask_updates [OF len, of "[''AB'']"] obtain b st log
    where l: "searchLogged 3 [''AB''] ''AC'' = Some (b, st, log)"
      and all: "\<forall>(pt, x)\<in>set log.
        int (card (true_cells x)) =
          (if pt = Index_raised then index x - 1
           else if pt = Index_lowered then index x + 1
           else index x)"
    by blast
  have pts: "map fst (snd (snd (the (searchLogged 3 [''AB''] ''AC''))))
               = [Start, Index_raised, Marked, Index_lowered, Unmarked]"
    by code_simp
  have ixs: "map (\<lambda>(pt, x). index x) (snd (snd (the (searchLogged 3 [''AB''] ''AC''))))
               = [0, 1, 1, 0, 0]"
    by code_simp
  from pts ixs have "map (\<lambda>(pt, x). (pt, index x)) log
      = [(Start, 0), (Index_raised, 1), (Marked, 1), (Index_lowered, 0), (Unmarked, 0)]"
    unfolding l by (auto simp: map_eq_Cons_conv)
  then obtain x0 x1 x2 x3 x4 where
    log: "log = [(Start, x0), (Index_raised, x1), (Marked, x2), (Index_lowered, x3), (Unmarked, x4)]"
    and ix: "index x0 = 0" "index x1 = 1" "index x2 = 1" "index x3 = 0" "index x4 = 0"
    by (auto simp: map_eq_Cons_conv)
  from all have "map (\<lambda>(pt, x). int (card (true_cells x))) log = [0, 0, 1, 1, 0]"
    unfolding log by (simp add: ix)
  with len pts ixs l show ?thesis by simp
qed

text \<open>
  Claim C7: the boolean result does not depend on the order in which the four directions
  are explored.  For every list of directions in which each of the four occurs, the
  search that tries the neighbours in that order returns, given depth beyond the length
  of the string, the boolean the search of the source returns.
\<close>

theorem direction_order_irrelevant:
  "set dirs = UNIV \<Longrightarrow> length s < fuel \<Longrightarrow>
   findStringOrdered dirs fuel puzzle s = findStringInSnakingPuzzle fuel puzzle s \<and>
   findStringInSnakingPuzzle fuel puzzle s \<noteq> None"
  by (simp add: findStringOrdered_run findString_run)

theorem direction_order_irrelevant_witness:
  "set [Right, Left, Down, Up] = (UNIV :: direction set) \<and> length ''AB'' < (3::nat) \<and>
   findStringOrdered [Right, Left, Down, Up] 3 [''AB''] ''AB'' = Some True \<and>
   findStringInSnakingPuzzle 3 [''AB''] ''AB'' = Some True"
proof -
  have "d \<in> set [Right, Left, Down, Up]" for d by (cases d) simp_all
  then have u: "set [Right, Left, Down, Up] = (UNIV :: direction set)" by blast
  have len: "length ''AB'' < (3::nat)" by simp
  have "findStringInSnakingPuzzle 3 [''AB''] ''AB'' = Some True" by code_simp
  with direction_order_irrelevant [OF u len, of "[''AB'']"] u len show ?thesis by simp
qed

text \<open>
  Claim C8: for every grid and every target equal to a full row or a full column, the
  search returns true.  It fails for an empty row, since the empty string is never
  found.  It holds for every non-empty target that is a row of the grid, or that is
  column \<open>j\<close> of a grid all of whose rows are longer than \<open>j\<close>.
\<close>

theorem empty_row_counterexample:
  "[] \<in> set [[] :: string] \<and> findStringInSnakingPuzzle 1 [[]] [] = Some False"
  by code_simp

theorem row_or_column_found:
  "target \<noteq> [] \<Longrightarrow> length target < fuel \<Longrightarrow>
   target \<in> set puzzle \<or>
     (\<exists>j. (\<forall>row\<in>set puzzle. j < length row) \<and> target = map (\<lambda>row. row ! j) puzzle) \<Longrightarrow>
   findStringInSnakingPuzzle fuel puzzle target = Some True"
proof -
  assume t: "target \<noteq> []" and fuel: "length target < fuel"
    and "target \<in> set puzzle \<or>
      (\<exists>j. (\<forall>row\<in>set puzzle. j < length row) \<and> target = map (\<lambda>row. row ! j) puzzle)"
  then have "has_snake puzzle target"
    using has_snake_row [of target puzzle] has_snake_column [of puzzle _ target] by blast
  with findString_run [OF fuel, of puzzle] show ?thesis by simp
qed

theorem row_or_column_found_witness:
  "''AB'' \<noteq> [] \<and> length ''AB'' < (3::nat) \<and> ''AB'' \<in> set [''AB'', ''CD''] \<and>
   findStringInSnakingPuzzle 3 [''AB'', ''CD''] ''AB'' = Some True \<and>
   ''AC'' \<noteq> [] \<and> length ''AC'' < (3::nat) \<and> (0::nat) < length ''AB'' \<and> (0::nat) < length ''CD'' \<and>
   ''AC'' = [''AB'' ! 0, ''CD'' ! 0] \<and>
   findStringInSnakingPuzzle 3 [''AB'', ''CD''] ''AC'' = Some True"
proof -
  have row: "''AB'' \<in> set [''AB'', ''CD'']" by simp
  have col: "\<exists>j. (\<forall>row\<in>set [''AB'', ''CD'']. j < length row) \<and>
                 ''AC'' = map (\<lambda>row. row ! j) [''AB'', ''CD'']"
    by (rule exI [of _ 0]) simp
  from row have "findStringInSnakingPuzzle 3 [''AB'', ''CD''] ''AB'' = Some True"
    by (intro row_or_column_found) simp_all
  moreover from col have "findStringInSnakingPuzzle 3 [''AB'', ''CD''] ''AC'' = Some True"
    by (intro row_or_column_found) simp_all
  ultimately show ?thesis by simp
qed

text \<open>
  Claim C9: for every grid and every target with at least one symbol that occurs nowhere
  in the grid, the search returns false and signals no error.  Given depth beyond the
  length of the target, the call returns, and it returns false.
\<close>

theorem foreign_symbol_not_found:
  "x \<in> set s \<Longrightarrow> \<forall>row\<in>set puzzle. x \<notin> set row \<Longrightarrow> length s < fuel \<Longrightarrow>
   findStringInSnakingPuzzle fuel puzzle s = Some False"
proof -
  assume x: "x \<in> set s" and foreign: "\<forall>row\<in>set puzzle. x \<notin> set row" and fuel: "length s < fuel"
  have "\<not> has_snake puzzle s"
  proof
    assume "has_snake puzzle s"
    then obtain c where "snake_from puzzle {} c s" unfolding has_snake_def ..
    from snake_symbols [OF this x] foreign show False by blast
  qed
  with findString_run [OF fuel, of puzzle] show ?thesis by simp
qed

theorem foreign_symbol_not_found_witness:
  "CHR ''Z'' \<in> set ''AZ'' \<and> CHR ''Z'' \<notin> set ''AB'' \<and> length ''AZ'' < (3::nat) \<and>
   findStringInSnakingPuzzle 3 [''AB''] ''AZ'' = Some False"
  using foreign_symbol_not_found [of "CHR ''Z''" "''AZ''" "[''AB'']" 3] by simp

end
